theory Spec2Isabelle
  imports
    Main
    "HOL-Library.Char_ord"
    "HOL-Library.List_Lexorder"
    "HOL-Library.Product_Lexorder"
begin

section \<open>The folder structure generator of \<^verbatim>\<open>cliver.py\<close>\<close>

text \<open>
  The development embeds the class \<^verbatim>\<open>FolderStructureGenerator\<close>: the recursive walk
  \<^verbatim>\<open>get_structure\<close>, the renderer \<^verbatim>\<open>print_structure\<close>, the counter \<^verbatim>\<open>get_summary\<close>
  and the value handed to \<^verbatim>\<open>json.dump\<close> by \<^verbatim>\<open>export_json\<close>.

  Strings are lists of 8-bit characters; a character beyond ASCII is the sequence of its
  UTF-8 bytes, whose lexicographic order is the order of the code points that Python
  compares. The string method \<^verbatim>\<open>lower\<close> follows the tables of Unicode, which are not part
  of the repository: it is a parameter, as the functions of the operating system are.
\<close>

subsection \<open>Configuration, exceptions and the file system interface\<close>

text \<open>The three attributes set by \<^verbatim>\<open>__init__\<close>; \<^verbatim>\<open>max_depth\<close> is \<^verbatim>\<open>None\<close> or a Python integer.\<close>

record config =
  exclude_hidden :: bool
  max_depth :: "int option"
  include_files :: bool

text \<open>
  The two classes of exception that the handlers of \<^verbatim>\<open>get_structure\<close> tell apart.
  \<open>OtherException msg\<close> is any other \<^verbatim>\<open>Exception\<close> \<^verbatim>\<open>e\<close> with \<^verbatim>\<open>str(e) = msg\<close>.
\<close>

datatype exn = PermissionError | OtherException string

text \<open>
  The functions of the modules \<^verbatim>\<open>os\<close> and \<^verbatim>\<open>os.path\<close> that the walk calls are
  parameters of the model. \<^verbatim>\<open>os.listdir\<close> and \<^verbatim>\<open>os.path.getsize\<close> may raise;
  \<^verbatim>\<open>os.path.isdir\<close>, \<^verbatim>\<open>os.path.exists\<close>, \<^verbatim>\<open>os.path.join\<close> and \<^verbatim>\<open>os.path.basename\<close>
  do not. \<open>str_lower\<close> is the method \<^verbatim>\<open>x.lower()\<close> of the names, whatever letters they hold.
\<close>

record fs =
  os_listdir :: "string \<Rightarrow> exn + string list"
  os_path_isdir :: "string \<Rightarrow> bool"
  os_path_exists :: "string \<Rightarrow> bool"
  os_path_getsize :: "string \<Rightarrow> exn + nat"
  os_path_join :: "string \<Rightarrow> string \<Rightarrow> string"
  os_path_basename :: "string \<Rightarrow> string"
  str_lower :: "string \<Rightarrow> string"

subsection \<open>The structure dictionaries\<close>

text \<open>
  \<^verbatim>\<open>get_structure\<close> builds dictionaries of three shapes, told apart by the entry
  \<^verbatim>\<open>"type"\<close>: \<^verbatim>\<open>"directory"\<close> (name, path, children), \<^verbatim>\<open>"file"\<close> (name, path, size) and
  \<^verbatim>\<open>"error"\<close> (name, path). They are the three constructors of \<open>node\<close>.
  The fourth value that \<^verbatim>\<open>get_structure\<close> returns is the dictionary with no entry,
  \<^verbatim>\<open>{}\<close>: it is \<open>EmptyDict\<close>, and it is the only one of them that Python takes for false.
  \<open>node_children\<close> is \<^verbatim>\<open>node.get("children", [])\<close>: the empty list where there is no such
  entry.
\<close>

datatype node =
    is_Directory: Directory (node_name: string) (node_path: string) (node_children: "node list")
  | is_FileEntry: FileEntry (node_name: string) (node_path: string) nat
  | is_ErrorNode: ErrorNode (node_name: string) (node_path: string)
where
  "node_children (FileEntry name path sz) = []"
| "node_children (ErrorNode name path) = []"

datatype pydict = EmptyDict | Node node

subsection \<open>Strings\<close>

text \<open>\<^verbatim>\<open>s.startswith(p)\<close>.\<close>

definition startswith :: "string \<Rightarrow> string \<Rightarrow> bool" where
  "startswith s p = (take (length p) s = p)"

subsection \<open>\<^verbatim>\<open>is_hidden\<close> and \<^verbatim>\<open>get_structure\<close>\<close>

definition is_hidden :: "fs \<Rightarrow> string \<Rightarrow> bool" where
  "is_hidden fs path = startswith (os_path_basename fs path) ''.''"

text \<open>The guard of line 36: \<^verbatim>\<open>self.max_depth is not None and current_depth >= self.max_depth\<close>.\<close>

definition depth_exhausted :: "config \<Rightarrow> int \<Rightarrow> bool" where
  "depth_exhausted cfg current_depth =
     (case max_depth cfg of None \<Rightarrow> False | Some m \<Rightarrow> current_depth \<ge> m)"

text \<open>
  Line 50: \<^verbatim>\<open>items.sort(key=lambda x: (not os.path.isdir(os.path.join(root_path, x)), x.lower()))\<close>.
  Python's sort is stable, as \<open>sort_key\<close> is; the keys are pairs, compared
  lexicographically, with \<^verbatim>\<open>False < True\<close>; \<^verbatim>\<open>x.lower()\<close> is \<open>str_lower fs x\<close>.
\<close>

definition sort_items :: "fs \<Rightarrow> string \<Rightarrow> string list \<Rightarrow> string list" where
  "sort_items fs root_path items =
     sort_key (\<lambda>x. (\<not> os_path_isdir fs (os_path_join fs root_path x), str_lower fs x)) items"

text \<open>The dictionaries that the two handlers (lines 72 to 83) append.\<close>

fun error_node :: "exn \<Rightarrow> node" where
  "error_node PermissionError = ErrorNode ''[Permission Denied]'' ''''"
| "error_node (OtherException msg) = ErrorNode (''[Error: '' @ msg @ '']'') ''''"

text \<open>
  The loop of lines 52 to 71 over the sorted items. \<open>children\<close> is the list
  \<^verbatim>\<open>structure["children"]\<close> so far; \<open>recurse\<close> is the recursive call of line 61, which
  gives \<open>None\<close> when it does not return. An exception leaves the loop: the handler
  appends its dictionary to the children collected so far, and the items that remain are
  not visited.
\<close>

fun loop_items ::
  "(string \<Rightarrow> pydict option) \<Rightarrow> config \<Rightarrow> fs \<Rightarrow> string \<Rightarrow> string list \<Rightarrow> node list
    \<Rightarrow> node list option" where
  "loop_items recurse cfg fs root_path [] children = Some children"
| "loop_items recurse cfg fs root_path (item # items) children =
     (let item_path = os_path_join fs root_path item in
      if exclude_hidden cfg \<and> is_hidden fs item_path then
        loop_items recurse cfg fs root_path items children
      else if os_path_isdir fs item_path then
        (case recurse item_path of
           None \<Rightarrow> None
         | Some EmptyDict \<Rightarrow> loop_items recurse cfg fs root_path items children
         | Some (Node child_structure) \<Rightarrow>
             loop_items recurse cfg fs root_path items (children @ [child_structure]))
      else if include_files cfg then
        (case (if os_path_exists fs item_path then os_path_getsize fs item_path else Inr 0) of
           Inl e \<Rightarrow> Some (children @ [error_node e])
         | Inr sz \<Rightarrow>
             loop_items recurse cfg fs root_path items (children @ [FileEntry item item_path sz]))
      else loop_items recurse cfg fs root_path items children)"

text \<open>
  \<^verbatim>\<open>get_structure(root_path, current_depth)\<close>. The recursion follows the file system,
  which need not be well-founded, so the first argument bounds the depth of the calls:
  \<open>None\<close> says that the bound was too small.
\<close>

fun get_structure :: "nat \<Rightarrow> config \<Rightarrow> fs \<Rightarrow> string \<Rightarrow> int \<Rightarrow> pydict option" where
  "get_structure 0 cfg fs root_path current_depth = None"
| "get_structure (Suc fuel) cfg fs root_path current_depth =
     (if depth_exhausted cfg current_depth then Some EmptyDict
      else
        (case os_listdir fs root_path of
           Inl e \<Rightarrow>
             Some (Node (Directory (os_path_basename fs root_path) root_path [error_node e]))
         | Inr items \<Rightarrow>
             map_option
               (\<lambda>children. Node (Directory (os_path_basename fs root_path) root_path children))
               (loop_items (\<lambda>item_path. get_structure fuel cfg fs item_path (current_depth + 1))
                  cfg fs root_path (sort_items fs root_path items) [])))"

subsection \<open>\<^verbatim>\<open>print_structure\<close>\<close>

text \<open>The connectors and the bar, as UTF-8.\<close>

definition connector_last :: string where
  "connector_last =
     [CHR 0xE2, CHR 0x94, CHR 0x94, CHR 0xE2, CHR 0x94, CHR 0x80, CHR 0xE2, CHR 0x94, CHR 0x80,
      CHR '' '']"

definition connector_mid :: string where
  "connector_mid =
     [CHR 0xE2, CHR 0x94, CHR 0x9C, CHR 0xE2, CHR 0x94, CHR 0x80, CHR 0xE2, CHR 0x94, CHR 0x80,
      CHR '' '']"

definition bar_prefix :: string where
  "bar_prefix = [CHR 0xE2, CHR 0x94, CHR 0x82, CHR '' '', CHR '' '', CHR '' '']"

text \<open>
  \<^verbatim>\<open>print_structure\<close> returns the lines that it prints, in order. The test of line 97
  and the tests \<^verbatim>\<open>structure["type"] == "directory"\<close> of lines 106 and 115 are the choice of
  the equation. The loop over \<^verbatim>\<open>enumerate(structure["children"])\<close> compares the index with
  the length, as line 117 does.
\<close>

function print_structure :: "node \<Rightarrow> string \<Rightarrow> bool \<Rightarrow> bool \<Rightarrow> string list" where
  "print_structure (ErrorNode name path) prefix is_last show_path =
     [prefix @ connector_last @ name]"
| "print_structure (FileEntry name path sz) prefix is_last show_path =
     (let connector = (if is_last then connector_last else connector_mid) in
      [prefix @ connector @ name])"
| "print_structure (Directory name path cs) prefix is_last show_path =
     (let connector = (if is_last then connector_last else connector_mid);
          display_name = (if show_path then name @ '' ('' @ path @ '')'' else name);
          new_prefix = prefix @ (if is_last then ''    '' else bar_prefix)
      in (prefix @ connector @ display_name) #
         concat (map (\<lambda>(i, child).
                        print_structure child new_prefix (int i = int (length cs) - 1) show_path)
                   (enumerate 0 cs)))"
  by pat_completeness auto
termination
proof (relation "measure (\<lambda>(structure, prefix, is_last, show_path). size structure)")
  show "wf (measure (\<lambda>(structure, prefix, is_last, show_path). size structure))"
    by simp
next
  fix name path :: string and cs :: "node list" and prefix :: string
    and is_last show_path :: bool and x xa xb :: string and xc :: "nat \<times> node" and xd :: nat
    and y :: node
  assume "xc \<in> set (enumerate 0 cs)" and "(xd, y) = xc"
  then have "y \<in> set cs"
    by (auto simp: in_set_enumerate_eq)
  then have "size y < Suc (size_list size cs)"
    by (simp add: less_Suc_eq_le size_list_estimation')
  then show "((y, xb, int xd = int (length cs) - 1, show_path),
              Directory name path cs, prefix, is_last, show_path)
             \<in> measure (\<lambda>(structure, prefix, is_last, show_path). size structure)"
    by simp
qed

text \<open>
  \<^verbatim>\<open>main\<close> and \<^verbatim>\<open>interactive_mode\<close> hand what \<^verbatim>\<open>get_structure\<close> returned to
  \<^verbatim>\<open>print_structure\<close> with the default prefix and flag (lines 191 and 273). On \<^verbatim>\<open>{}\<close> the
  lookup \<^verbatim>\<open>structure["type"]\<close> of line 97 raises \<^verbatim>\<open>KeyError\<close> before anything is printed.
\<close>

datatype key_error = KeyError string

fun print_returned :: "pydict \<Rightarrow> bool \<Rightarrow> key_error + string list" where
  "print_returned EmptyDict show_path = Inl (KeyError ''type'')"
| "print_returned (Node structure) show_path = Inr (print_structure structure [] True show_path)"

subsection \<open>\<^verbatim>\<open>get_summary\<close>\<close>

text \<open>The dictionary \<^verbatim>\<open>stats\<close>, which \<^verbatim>\<open>count_items\<close> updates in place.\<close>

record stats =
  directories :: nat
  files :: nat
  errors :: nat

fun count_items :: "node \<Rightarrow> stats \<Rightarrow> stats" where
  "count_items (Directory name path cs) st =
     fold count_items cs (st\<lparr>directories := directories st + 1\<rparr>)"
| "count_items (FileEntry name path sz) st = st\<lparr>files := files st + 1\<rparr>"
| "count_items (ErrorNode name path) st = st\<lparr>errors := errors st + 1\<rparr>"

definition get_summary :: "node \<Rightarrow> stats" where
  "get_summary structure = count_items structure \<lparr>directories = 0, files = 0, errors = 0\<rparr>"

subsection \<open>The value that \<^verbatim>\<open>export_json\<close> serialises\<close>

text \<open>
  \<^verbatim>\<open>export_json\<close> hands the structure to \<^verbatim>\<open>json.dump\<close> as it is. \<open>json\<close> holds the
  values that occur in a structure, a dictionary being the list of its entries in the
  order of insertion; \<open>node_dict\<close> writes out the three dictionary literals of
  \<^verbatim>\<open>get_structure\<close> (lines 39 to 44, 66 to 71, 73 to 77 and 79 to 83), and
  \<open>export_json\<close> is the argument of \<^verbatim>\<open>json.dump\<close>. The text that \<^verbatim>\<open>json.dump\<close> writes is
  the library's and is not part of the model.
\<close>

datatype json =
    JString string
  | JNumber int
  | JArray "json list"
  | JObject "(string \<times> json) list"

fun node_dict :: "node \<Rightarrow> json" where
  "node_dict (Directory name path cs) =
     JObject [(''name'', JString name), (''type'', JString ''directory''),
              (''path'', JString path), (''children'', JArray (map node_dict cs))]"
| "node_dict (FileEntry name path sz) =
     JObject [(''name'', JString name), (''type'', JString ''file''),
              (''path'', JString path), (''size'', JNumber (int sz))]"
| "node_dict (ErrorNode name path) =
     JObject [(''name'', JString name), (''type'', JString ''error''),
              (''path'', JString path)]"

fun export_json :: "pydict \<Rightarrow> json" where
  "export_json EmptyDict = JObject []"
| "export_json (Node structure) = node_dict structure"

text \<open>The truth value that \<^verbatim>\<open>if child_structure:\<close> takes: a dictionary is false when empty.\<close>

fun truthy :: "json \<Rightarrow> bool" where
  "truthy (JObject entries) = (entries \<noteq> [])"
| "truthy (JArray xs) = (xs \<noteq> [])"
| "truthy (JString s) = (s \<noteq> [])"
| "truthy (JNumber i) = (i \<noteq> 0)"

section \<open>Notions for the statements\<close>

subsection \<open>Nodes of a tree, ends of a walk\<close>

text \<open>The nodes of a structure in pre-order, the structure itself first.\<close>

fun subtrees :: "node \<Rightarrow> node list" where
  "subtrees (Directory name path cs) = Directory name path cs # concat (map subtrees cs)"
| "subtrees (FileEntry name path sz) = [FileEntry name path sz]"
| "subtrees (ErrorNode name path) = [ErrorNode name path]"

text \<open>
  \<open>walk_ends h\<close> holds when the directories below \<open>root_path\<close>, down to the depth
  limit if there is one, are nested less than \<open>h\<close> deep. It speaks of the file system
  and the depth limit alone, and is the condition under which \<open>h\<close> calls inside one
  another suffice.
\<close>

fun walk_ends :: "nat \<Rightarrow> config \<Rightarrow> fs \<Rightarrow> string \<Rightarrow> int \<Rightarrow> bool" where
  "walk_ends 0 cfg fs root_path current_depth = False"
| "walk_ends (Suc h) cfg fs root_path current_depth =
     (depth_exhausted cfg current_depth \<or>
      (case os_listdir fs root_path of
         Inl e \<Rightarrow> True
       | Inr items \<Rightarrow>
           (\<forall>item \<in> set items.
              os_path_isdir fs (os_path_join fs root_path item) \<longrightarrow>
              walk_ends h cfg fs (os_path_join fs root_path item) (current_depth + 1))))"

text \<open>One visited item either adds nothing, adds a dictionary, or raises.\<close>

datatype outcome = Skip | Append node | Raise exn

definition item_outcome ::
  "(string \<Rightarrow> pydict option) \<Rightarrow> config \<Rightarrow> fs \<Rightarrow> string \<Rightarrow> string \<Rightarrow> outcome option" where
  "item_outcome recurse cfg fs root_path item =
     (let item_path = os_path_join fs root_path item in
      if exclude_hidden cfg \<and> is_hidden fs item_path then Some Skip
      else if os_path_isdir fs item_path then
        (case recurse item_path of
           None \<Rightarrow> None
         | Some EmptyDict \<Rightarrow> Some Skip
         | Some (Node child_structure) \<Rightarrow> Some (Append child_structure))
      else if include_files cfg then
        (if os_path_exists fs item_path then
           (case os_path_getsize fs item_path of
              Inl e \<Rightarrow> Some (Raise e)
            | Inr sz \<Rightarrow> Some (Append (FileEntry item item_path sz)))
         else Some (Append (FileEntry item item_path 0)))
      else Some Skip)"

text \<open>
  The items of a listing that get a dictionary when nothing raises: those that are not
  skipped as hidden and are, if directories, above the depth limit and, if not, wanted
  as files.
\<close>

definition emitted :: "config \<Rightarrow> fs \<Rightarrow> string \<Rightarrow> int \<Rightarrow> string \<Rightarrow> bool" where
  "emitted cfg fs root_path current_depth item =
     (let item_path = os_path_join fs root_path item in
      \<not> (exclude_hidden cfg \<and> is_hidden fs item_path) \<and>
      (if os_path_isdir fs item_path then \<not> depth_exhausted cfg (current_depth + 1)
       else include_files cfg))"

subsection \<open>The order of children\<close>

text \<open>
  The children that stand for entries are the directories followed by the files, and
  each of the two groups ascends in the name with its case folded by \<open>lower_of\<close>, for
  which the statements take \<^verbatim>\<open>x.lower()\<close>.
\<close>

definition children_ordered :: "(string \<Rightarrow> string) \<Rightarrow> node list \<Rightarrow> bool" where
  "children_ordered lower_of cs \<longleftrightarrow>
     filter (\<lambda>c. \<not> is_ErrorNode c) cs = filter is_Directory cs @ filter is_FileEntry cs \<and>
     sorted (map (\<lambda>c. lower_of (node_name c)) (filter is_Directory cs)) \<and>
     sorted (map (\<lambda>c. lower_of (node_name c)) (filter is_FileEntry cs))"

text \<open>
  The base name of a listed entry's path is the entry's name, as it is for \<^verbatim>\<open>os.path\<close>
  on the names that \<^verbatim>\<open>os.listdir\<close> returns.
\<close>

definition names_coherent :: "fs \<Rightarrow> bool" where
  "names_coherent fs \<longleftrightarrow>
     (\<forall>path items item. os_listdir fs path = Inr items \<longrightarrow> item \<in> set items \<longrightarrow>
        os_path_basename fs (os_path_join fs path item) = item)"

subsection \<open>The entries below a directory\<close>

text \<open>
  The number of entries reachable below \<open>path\<close>, \<open>path\<close> itself counted as one; \<open>None\<close>
  when the directories are nested \<open>h\<close> deep or deeper. A directory that cannot be listed
  counts as one entry.
\<close>

fun count_entries :: "nat \<Rightarrow> fs \<Rightarrow> string \<Rightarrow> nat option" where
  "count_entries 0 fs path = None"
| "count_entries (Suc h) fs path =
     (case os_listdir fs path of
        Inl e \<Rightarrow> Some 1
      | Inr items \<Rightarrow>
          (let counts = map (\<lambda>item. if os_path_isdir fs (os_path_join fs path item)
                                      then count_entries h fs (os_path_join fs path item)
                                      else Some 1) items
           in if None \<in> set counts then None else Some (1 + sum_list (map the counts))))"

subsection \<open>The renderer in the words of the specification\<close>

text \<open>
  An error node is one line with the last-child connector. Any other node is one line
  with the connector of its position, followed by its children under the extended
  prefix; a child is last exactly when no sibling follows it.
\<close>

fun render :: "node \<Rightarrow> string \<Rightarrow> bool \<Rightarrow> bool \<Rightarrow> string list"
  and render_children :: "node list \<Rightarrow> string \<Rightarrow> bool \<Rightarrow> string list" where
  "render (ErrorNode message path) prefix is_last show_full_path =
     [prefix @ connector_last @ message]"
| "render (FileEntry name path sz) prefix is_last show_full_path =
     [prefix @ (if is_last then connector_last else connector_mid) @ name]"
| "render (Directory name path cs) prefix is_last show_full_path =
     (prefix @ (if is_last then connector_last else connector_mid) @
        (if show_full_path then name @ '' ('' @ path @ '')'' else name)) #
     render_children cs (prefix @ (if is_last then ''    '' else bar_prefix)) show_full_path"
| "render_children [] prefix show_full_path = []"
| "render_children [child] prefix show_full_path = render child prefix True show_full_path"
| "render_children (child # sibling # rest) prefix show_full_path =
     render child prefix False show_full_path @
     render_children (sibling # rest) prefix show_full_path"

subsection \<open>Reading a structured value back\<close>

text \<open>
  Modelled from the spec: the reconstruction of a tree from the structured value, which
  the repository does not contain. It reads the entries \<^verbatim>\<open>name\<close>, \<^verbatim>\<open>type\<close>, \<^verbatim>\<open>path\<close> and,
  as the type asks, \<^verbatim>\<open>children\<close> or \<^verbatim>\<open>size\<close>, and fails on any other value.
\<close>

function reconstruct :: "json \<Rightarrow> node option" where
  "reconstruct (JObject entries) =
     (case (map_of entries ''name'', map_of entries ''type'', map_of entries ''path'') of
        (Some (JString name), Some (JString ty), Some (JString path)) \<Rightarrow>
          if ty = ''directory'' then
            (case map_of entries ''children'' of
               Some (JArray cs) \<Rightarrow>
                 (if None \<in> set (map reconstruct cs) then None
                  else Some (Directory name path (map (\<lambda>c. the (reconstruct c)) cs)))
             | _ \<Rightarrow> None)
          else if ty = ''file'' then
            (case map_of entries ''size'' of
               Some (JNumber sz) \<Rightarrow> if 0 \<le> sz then Some (FileEntry name path (nat sz)) else None
             | _ \<Rightarrow> None)
          else if ty = ''error'' then Some (ErrorNode name path)
          else None
      | _ \<Rightarrow> None)"
| "reconstruct (JString s) = None"
| "reconstruct (JNumber i) = None"
| "reconstruct (JArray xs) = None"
  by pat_completeness auto
termination
proof -
  have lookup: "size v < Suc (size_list (size_prod (\<lambda>x. 0) size) entries)"
    if "map_of entries k = Some v" for entries :: "(string \<times> json) list" and k v
    using that by (induction entries) (auto split: if_splits)
  have child: "size c < Suc (size_list (size_prod (\<lambda>x. 0) size) entries)"
    if "map_of entries k = Some (JArray cs)" and "c \<in> set cs"
    for entries :: "(string \<times> json) list" and k cs c
  proof -
    from that(1) have "size (JArray cs) < Suc (size_list (size_prod (\<lambda>x. 0) size) entries)"
      by (rule lookup)
    moreover from that(2) have "size c \<le> size_list size cs"
      by (rule size_list_estimation') simp
    ultimately show ?thesis by simp
  qed
  show ?thesis
    by (relation "measure size") (auto intro: child)
qed

subsection \<open>Counting the nodes of a structure\<close>

text \<open>
  The count of each kind among a list of nodes, the sum of two counts, and the number of
  nodes of a structure that stand for entries of the file system, that is, all but the
  error dictionaries.
\<close>

definition tally :: "node list \<Rightarrow> stats" where
  "tally ns = \<lparr>directories = length (filter is_Directory ns),
              files = length (filter is_FileEntry ns),
              errors = length (filter is_ErrorNode ns)\<rparr>"

definition add_stats :: "stats \<Rightarrow> stats \<Rightarrow> stats" where
  "add_stats a b = \<lparr>directories = directories a + directories b, files = files a + files b,
                    errors = errors a + errors b\<rparr>"

definition entry_count :: "node \<Rightarrow> nat" where
  "entry_count t = length (filter (\<lambda>c. \<not> is_ErrorNode c) (subtrees t))"

subsection \<open>The label of a line\<close>

text \<open>
  The name of the node; for a directory, when \<^verbatim>\<open>show_path\<close> is set, the name followed by
  the path in parentheses (lines 105 to 107).
\<close>

definition label :: "bool \<Rightarrow> node \<Rightarrow> string" where
  "label show_path structure =
     (if show_path \<and> is_Directory structure
      then node_name structure @ '' ('' @ node_path structure @ '')''
      else node_name structure)"

section \<open>Example file systems\<close>

text \<open>\<^verbatim>\<open>os.path.join\<close> and \<^verbatim>\<open>os.path.basename\<close> of \<^verbatim>\<open>posixpath\<close>, for two arguments.\<close>

definition endswith :: "string \<Rightarrow> string \<Rightarrow> bool" where
  "endswith s p = (drop (length s - length p) s = p)"

definition posix_join :: "string \<Rightarrow> string \<Rightarrow> string" where
  "posix_join a b =
     (if startswith b ''/'' then b
      else if a = [] \<or> endswith a ''/'' then a @ b
      else a @ ''/'' @ b)"

definition posix_basename :: "string \<Rightarrow> string" where
  "posix_basename p = rev (takeWhile (\<lambda>c. c \<noteq> CHR ''/'') (rev p))"

text \<open>
  \<^verbatim>\<open>x.lower()\<close> on the names of the examples: it is Python's on every string whose code
  points are below U+0100. The letters \<^verbatim>\<open>A\<close> to \<^verbatim>\<open>Z\<close> move to \<^verbatim>\<open>a\<close> to \<^verbatim>\<open>z\<close>, and the
  capital letters U+00C0 to U+00DE, without the sign U+00D7, move up by 32; in UTF-8
  these are the byte \<^verbatim>\<open>C3\<close> followed by \<^verbatim>\<open>80\<close> to \<^verbatim>\<open>9E\<close>, without \<^verbatim>\<open>97\<close>.
\<close>

definition lower_char :: "char \<Rightarrow> char" where
  "lower_char c =
     (if CHR ''A'' \<le> c \<and> c \<le> CHR ''Z'' then char_of (of_char c + (32::nat)) else c)"

fun latin1_lower :: "string \<Rightarrow> string" where
  "latin1_lower [] = []"
| "latin1_lower [c] = [lower_char c]"
| "latin1_lower (c # d # s) =
     (if c = CHR 0xC3 \<and> CHR 0x80 \<le> d \<and> d \<le> CHR 0x9E \<and> d \<noteq> CHR 0x97
      then c # char_of (of_char d + (32::nat)) # latin1_lower s
      else lower_char c # latin1_lower (d # s))"

text \<open>
  A file system given by two tables: what listing each directory gives, and the size of
  each file. Any other path does not exist.
\<close>

definition mk_fs :: "(string \<times> (exn + string list)) list \<Rightarrow> (string \<times> nat) list \<Rightarrow> fs" where
  "mk_fs dirs fls =
     \<lparr>os_listdir = (\<lambda>p. case map_of dirs p of
                           Some l \<Rightarrow> l
                         | None \<Rightarrow> Inl (OtherException ''No such file or directory'')),
      os_path_isdir = (\<lambda>p. map_of dirs p \<noteq> None),
      os_path_exists = (\<lambda>p. map_of dirs p \<noteq> None \<or> map_of fls p \<noteq> None),
      os_path_getsize = (\<lambda>p. case map_of fls p of
                                Some n \<Rightarrow> Inr n
                              | None \<Rightarrow> Inl (OtherException ''No such file or directory'')),
      os_path_join = posix_join,
      os_path_basename = posix_basename,
      str_lower = latin1_lower\<rparr>"

text \<open>A root with the directory \<^verbatim>\<open>sub\<close>, which holds the file \<^verbatim>\<open>deep.txt\<close>.\<close>

definition fs_deep :: fs where
  "fs_deep =
     mk_fs [(''/r'', Inr [''sub'']), (''/r/sub'', Inr [''deep.txt''])]
           [(''/r/sub/deep.txt'', 7)]"

text \<open>A root with the entries \<^verbatim>\<open>b.txt\<close>, \<^verbatim>\<open>A\<close>, \<^verbatim>\<open>a.txt\<close>, \<^verbatim>\<open>B\<close>; \<^verbatim>\<open>A\<close> and \<^verbatim>\<open>B\<close> are empty directories.\<close>

definition fs_mixed :: fs where
  "fs_mixed =
     mk_fs [(''/r'', Inr [''b.txt'', ''A'', ''a.txt'', ''B'']), (''/r/A'', Inr []),
            (''/r/B'', Inr [])]
           [(''/r/a.txt'', 1), (''/r/b.txt'', 2)]"

text \<open>A hidden root with the hidden entries \<^verbatim>\<open>.git\<close> and \<^verbatim>\<open>.env\<close> and the file \<^verbatim>\<open>main.py\<close>.\<close>

definition fs_hidden :: fs where
  "fs_hidden =
     mk_fs [(''/.cfg'', Inr [''.git'', ''main.py'', ''.env'']), (''/.cfg/.git'', Inr [''HEAD''])]
           [(''/.cfg/.env'', 3), (''/.cfg/main.py'', 5), (''/.cfg/.git/HEAD'', 4)]"

text \<open>
  A root with two files, listed in this order: U+00E9 followed by \<^verbatim>\<open>a\<close>, and U+00C9
  followed by \<^verbatim>\<open>b\<close>; the two code points are the small and the capital E with acute
  accent.
\<close>

definition fs_accent :: fs where
  "fs_accent =
     mk_fs [(''/r'', Inr [[CHR 0xC3, CHR 0xA9, CHR ''a''], [CHR 0xC3, CHR 0x89, CHR ''b'']])]
           [(''/r/'' @ [CHR 0xC3, CHR 0xA9, CHR ''a''], 1),
            (''/r/'' @ [CHR 0xC3, CHR 0x89, CHR ''b''], 2)]"

text \<open>A root that may not be listed.\<close>

definition fs_denied :: fs where
  "fs_denied = mk_fs [(''/r'', Inl PermissionError)] []"

text \<open>The configuration that \<^verbatim>\<open>__init__\<close> sets by default.\<close>

definition default_config :: config where
  "default_config = \<lparr>exclude_hidden = True, max_depth = None, include_files = True\<rparr>"

section \<open>Basic facts about the walk\<close>

text \<open>The loop, one item at a time.\<close>

lemma loop_items_Cons:
  "loop_items recurse cfg fs root (x # xs) acc =
     (case item_outcome recurse cfg fs root x of
        None \<Rightarrow> None
      | Some Skip \<Rightarrow> loop_items recurse cfg fs root xs acc
      | Some (Append c) \<Rightarrow> loop_items recurse cfg fs root xs (acc @ [c])
      | Some (Raise e) \<Rightarrow> Some (acc @ [error_node e]))"
  by (simp add: item_outcome_def Let_def split: option.split pydict.split sum.split)

declare loop_items.simps(2) [simp del]

lemma get_structure_exhausted:
  "depth_exhausted cfg d \<Longrightarrow> get_structure (Suc n) cfg fs root d = Some EmptyDict"
  by simp

lemma get_structure_listdir_raises:
  "\<not> depth_exhausted cfg d \<Longrightarrow> os_listdir fs root = Inl e \<Longrightarrow>
   get_structure (Suc n) cfg fs root d =
     Some (Node (Directory (os_path_basename fs root) root [error_node e]))"
  by simp

lemma get_structure_listdir_returns:
  "\<not> depth_exhausted cfg d \<Longrightarrow> os_listdir fs root = Inr items \<Longrightarrow>
   get_structure (Suc n) cfg fs root d =
     map_option (\<lambda>children. Node (Directory (os_path_basename fs root) root children))
       (loop_items (\<lambda>item_path. get_structure n cfg fs item_path (d + 1)) cfg fs root
          (sort_items fs root items) [])"
  by simp

declare get_structure.simps(2) [simp del]

lemma error_node_kind [simp]:
  "is_ErrorNode (error_node e)" "\<not> is_Directory (error_node e)" "\<not> is_FileEntry (error_node e)"
  by (cases e; simp)+

lemma depth_exhausted_Some: "max_depth cfg = Some m \<Longrightarrow> depth_exhausted cfg d = (m \<le> d)"
  by (simp add: depth_exhausted_def)

lemma depth_exhausted_None: "max_depth cfg = None \<Longrightarrow> \<not> depth_exhausted cfg d"
  by (simp add: depth_exhausted_def)

lemma loop_items_returns:
  assumes "\<forall>x \<in> set items. item_outcome recurse cfg fs root x \<noteq> None"
  shows "\<exists>cs. loop_items recurse cfg fs root items acc = Some cs"
  using assms
proof (induction items arbitrary: acc)
  case Nil
  show ?case by simp
next
  case (Cons x xs)
  then obtain out where out: "item_outcome recurse cfg fs root x = Some out"
    by auto
  from Cons have IH: "\<exists>cs. loop_items recurse cfg fs root xs acc' = Some cs" for acc'
    by simp
  show ?case
    using IH by (cases out) (simp_all add: loop_items_Cons out)
qed

lemma loop_items_invariant:
  assumes "loop_items recurse cfg fs root items acc = Some cs"
    and "\<forall>c \<in> set acc. Q c"
    and "\<And>x c. x \<in> set items \<Longrightarrow> item_outcome recurse cfg fs root x = Some (Append c) \<Longrightarrow> Q c"
    and "\<And>e. Q (error_node e)"
  shows "\<forall>c \<in> set cs. Q c"
  using assms(1-3)
proof (induction items arbitrary: acc)
  case Nil
  then show ?case by simp
next
  case (Cons x xs)
  from Cons.prems(1) obtain out where out: "item_outcome recurse cfg fs root x = Some out"
    by (auto simp: loop_items_Cons split: option.splits)
  show ?case
  proof (cases out)
    case Skip
    with Cons.prems(1) out have "loop_items recurse cfg fs root xs acc = Some cs"
      by (simp add: loop_items_Cons)
    then show ?thesis
      using Cons.prems(2,3) by (intro Cons.IH [of acc]) auto
  next
    case (Append c)
    with Cons.prems(1) out have run: "loop_items recurse cfg fs root xs (acc @ [c]) = Some cs"
      by (simp add: loop_items_Cons)
    from Cons.prems(3) [of x c] out Append have "Q c" by simp
    with Cons.prems(2) have "\<forall>a \<in> set (acc @ [c]). Q a" by simp
    with run show ?thesis
      using Cons.prems(3) by (intro Cons.IH [of "acc @ [c]"]) auto
  next
    case (Raise e)
    with Cons.prems(1) out have "cs = acc @ [error_node e]"
      by (simp add: loop_items_Cons)
    with Cons.prems(2) assms(4) show ?thesis by simp
  qed
qed

lemma item_outcome_all_cut:
  assumes "\<And>p. recurse p = Some EmptyDict"
  shows "item_outcome recurse cfg fs root x \<noteq> None"
    and "item_outcome recurse cfg fs root x = Some (Append c) \<Longrightarrow>
           \<exists>sz. c = FileEntry x (os_path_join fs root x) sz"
  by (auto simp: item_outcome_def Let_def assms split: sum.splits if_splits)


text \<open>What a call that returns has returned.\<close>

lemma get_structure_shape:
  assumes "get_structure n cfg fs root d = Some r"
  shows "(depth_exhausted cfg d \<longrightarrow> r = EmptyDict) \<and>
         (\<not> depth_exhausted cfg d \<longrightarrow>
            (\<exists>cs. r = Node (Directory (os_path_basename fs root) root cs)))"
proof (cases n)
  case 0
  with assms show ?thesis by simp
next
  case (Suc m)
  show ?thesis
  proof (cases "depth_exhausted cfg d")
    case True
    with assms Suc show ?thesis by (simp add: get_structure_exhausted)
  next
    case False
    show ?thesis
    proof (cases "os_listdir fs root")
      case (Inl e)
      with assms Suc False show ?thesis
        by (auto simp: get_structure_listdir_raises)
    next
      case (Inr items)
      with assms Suc False show ?thesis
        by (auto simp: get_structure_listdir_returns)
    qed
  qed
qed

lemma get_structure_Node:
  assumes "get_structure n cfg fs root d = Some (Node t)"
  shows "\<not> depth_exhausted cfg d" and "\<exists>cs. t = Directory (os_path_basename fs root) root cs"
  using get_structure_shape [OF assms] by auto

subsection \<open>When the walk returns\<close>

text \<open>
  A walk that ends within \<open>h\<close> nested calls returns; a depth limit bounds the nesting on
  every file system; and a call that returns with some bound returns the same with a
  greater one.
\<close>

lemma item_outcome_returns:
  assumes "os_path_isdir fs (os_path_join fs root x) \<Longrightarrow> recurse (os_path_join fs root x) \<noteq> None"
  shows "item_outcome recurse cfg fs root x \<noteq> None"
  using assms
  by (auto simp: item_outcome_def Let_def split: option.splits pydict.splits sum.splits)

lemma walk_ends_returns:
  "walk_ends h cfg fs root d \<Longrightarrow> \<exists>r. get_structure h cfg fs root d = Some r"
proof (induction h arbitrary: root d)
  case 0
  then show ?case by simp
next
  case (Suc h)
  show ?case
  proof (cases "depth_exhausted cfg d")
    case True
    then show ?thesis by (simp add: get_structure_exhausted)
  next
    case False
    show ?thesis
    proof (cases "os_listdir fs root")
      case (Inl e)
      with False show ?thesis by (simp add: get_structure_listdir_raises)
    next
      case (Inr items)
      define recurse where "recurse = (\<lambda>p. get_structure h cfg fs p (d + 1))"
      define sorted_items where "sorted_items = sort_items fs root items"
      have "item_outcome recurse cfg fs root x \<noteq> None" if "x \<in> set sorted_items" for x
      proof (rule item_outcome_returns)
        assume "os_path_isdir fs (os_path_join fs root x)"
        moreover from that have "x \<in> set items"
          by (simp add: sorted_items_def sort_items_def)
        ultimately have "walk_ends h cfg fs (os_path_join fs root x) (d + 1)"
          using Suc.prems False Inr by simp
        then show "recurse (os_path_join fs root x) \<noteq> None"
          using Suc.IH by (auto simp: recurse_def)
      qed
      then obtain cs where "loop_items recurse cfg fs root sorted_items [] = Some cs"
        using loop_items_returns [of sorted_items recurse cfg fs root "[]"] by blast
      with False Inr show ?thesis
        by (simp add: get_structure_listdir_returns recurse_def sorted_items_def)
    qed
  qed
qed

lemma depth_limit_walk_ends:
  "max_depth cfg = Some m \<Longrightarrow> m - d \<le> int h \<Longrightarrow> walk_ends (Suc h) cfg fs root d"
proof (induction h arbitrary: root d)
  case 0
  then show ?case by (simp add: depth_exhausted_Some)
next
  case (Suc h)
  show ?case
  proof (cases "depth_exhausted cfg d")
    case True
    then show ?thesis by simp
  next
    case False
    with Suc.prems have "m - (d + 1) \<le> int h"
      by (simp add: depth_exhausted_Some)
    with Suc.prems(1) have "walk_ends (Suc h) cfg fs p (d + 1)" for p
      by (rule Suc.IH)
    then show ?thesis
      by (simp split: sum.split)
  qed
qed

lemma item_outcome_mono:
  assumes "\<And>p v. r1 p = Some v \<Longrightarrow> r2 p = Some v"
    and "item_outcome r1 cfg fs root x = Some out"
  shows "item_outcome r2 cfg fs root x = Some out"
proof (cases "r1 (os_path_join fs root x)")
  case None
  with assms(2) show ?thesis
    by (auto simp: item_outcome_def Let_def split: if_splits sum.splits)
next
  case (Some v)
  with assms(1) have "r2 (os_path_join fs root x) = Some v" by simp
  with Some assms(2) show ?thesis
    by (auto simp: item_outcome_def Let_def split: if_splits sum.splits pydict.splits)
qed

lemma loop_items_mono:
  assumes "\<And>p v. r1 p = Some v \<Longrightarrow> r2 p = Some v"
  shows "loop_items r1 cfg fs root items acc = Some cs \<Longrightarrow>
         loop_items r2 cfg fs root items acc = Some cs"
proof (induction items arbitrary: acc)
  case Nil
  then show ?case by simp
next
  case (Cons x xs)
  from Cons.prems obtain out where out: "item_outcome r1 cfg fs root x = Some out"
    by (auto simp: loop_items_Cons split: option.splits)
  with assms have out2: "item_outcome r2 cfg fs root x = Some out"
    by (rule item_outcome_mono)
  show ?case
    using Cons.prems Cons.IH by (cases out) (simp_all add: loop_items_Cons out out2)
qed

lemma get_structure_fuel_mono:
  "get_structure n cfg fs root d = Some r \<Longrightarrow> get_structure (Suc n) cfg fs root d = Some r"
proof (induction n arbitrary: root d r)
  case 0
  then show ?case by simp
next
  case (Suc n)
  show ?case
  proof (cases "depth_exhausted cfg d")
    case True
    with Suc.prems show ?thesis by (simp add: get_structure_exhausted)
  next
    case False
    show ?thesis
    proof (cases "os_listdir fs root")
      case (Inl e)
      with Suc.prems False show ?thesis by (simp add: get_structure_listdir_raises)
    next
      case (Inr items)
      define r1 where "r1 = (\<lambda>p. get_structure n cfg fs p (d + 1))"
      define r2 where "r2 = (\<lambda>p. get_structure (Suc n) cfg fs p (d + 1))"
      have step: "r2 p = Some v" if "r1 p = Some v" for p v
        using that Suc.IH by (simp add: r1_def r2_def)
      from Suc.prems False Inr obtain cs
        where cs: "loop_items r1 cfg fs root (sort_items fs root items) [] = Some cs"
          and r: "r = Node (Directory (os_path_basename fs root) root cs)"
        by (auto simp: get_structure_listdir_returns r1_def)
      from step cs have "loop_items r2 cfg fs root (sort_items fs root items) [] = Some cs"
        by (rule loop_items_mono)
      with False Inr r show ?thesis
        by (simp add: get_structure_listdir_returns r2_def)
    qed
  qed
qed

lemma get_structure_more_fuel:
  "get_structure n cfg fs root d = Some r \<Longrightarrow> get_structure (n + k) cfg fs root d = Some r"
  by (induction k) (simp_all add: get_structure_fuel_mono)

lemma get_structure_deterministic:
  assumes "get_structure n cfg fs root d = Some r" and "get_structure m cfg fs root d = Some r'"
  shows "r = r'"
proof -
  from assms(1) have "get_structure (n + m) cfg fs root d = Some r"
    by (rule get_structure_more_fuel)
  moreover from assms(2) have "get_structure (m + n) cfg fs root d = Some r'"
    by (rule get_structure_more_fuel)
  ultimately show ?thesis
    by (simp add: add.commute)
qed

lemma depth_limit_returns:
  assumes "max_depth cfg = Some m" and "m - d \<le> int h"
  shows "\<exists>r. get_structure (Suc h) cfg fs root d = Some r"
  using depth_limit_walk_ends [OF assms] by (rule walk_ends_returns)

section \<open>The depth limit\<close>

text \<open>
  C1, as amended. With \<^verbatim>\<open>max_depth = 1\<close> the call on the root returns, for every file system,
  a directory dictionary for the root none of whose children is a directory: the call on
  a subdirectory such as \<^verbatim>\<open>sub\<close> runs at depth 1, returns \<^verbatim>\<open>{}\<close>, and line 62 does not
  append it. Every file among the children is an entry of the root itself, so no entry
  of a subdirectory, such as \<^verbatim>\<open>deep.txt\<close>, is in the tree.
\<close>

theorem depth_one_omits_subdirectories:
  assumes "max_depth cfg = Some 1"
  shows "\<exists>cs. get_structure (Suc (Suc n)) cfg fs root 0 =
                 Some (Node (Directory (os_path_basename fs root) root cs)) \<and>
              (\<forall>c \<in> set cs. \<not> is_Directory c \<and>
                 (is_FileEntry c \<longrightarrow>
                    (\<exists>items. os_listdir fs root = Inr items \<and> node_name c \<in> set items \<and>
                       node_path c = os_path_join fs root (node_name c))))"
proof (cases "os_listdir fs root")
  case (Inl e)
  with assms show ?thesis
    by (simp add: depth_exhausted_Some get_structure_listdir_raises)
next
  case (Inr items)
  define recurse where "recurse = (\<lambda>p. get_structure (Suc n) cfg fs p (0 + 1))"
  define sorted_items where "sorted_items = sort_items fs root items"
  let ?Q = "\<lambda>c. \<not> is_Directory c \<and>
              (is_FileEntry c \<longrightarrow> node_name c \<in> set items \<and>
                 node_path c = os_path_join fs root (node_name c))"
  have cut: "recurse p = Some EmptyDict" for p
    using assms by (simp add: recurse_def depth_exhausted_Some get_structure_exhausted)
  have sorted: "set sorted_items = set items"
    by (simp add: sorted_items_def sort_items_def)
  have "\<forall>x \<in> set sorted_items. item_outcome recurse cfg fs root x \<noteq> None"
    using item_outcome_all_cut(1) [of recurse] cut by blast
  then obtain cs where cs: "loop_items recurse cfg fs root sorted_items [] = Some cs"
    using loop_items_returns by blast
  have "\<forall>c \<in> set cs. ?Q c"
  proof (rule loop_items_invariant [OF cs])
    show "\<forall>c \<in> set []. ?Q c" by simp
  next
    fix x c
    assume x: "x \<in> set sorted_items"
      and "item_outcome recurse cfg fs root x = Some (Append c)"
    then obtain sz where "c = FileEntry x (os_path_join fs root x) sz"
      using item_outcome_all_cut(2) [of recurse] cut by blast
    with x sorted show "?Q c" by simp
  next
    fix e
    show "?Q (error_node e)" by simp
  qed
  moreover have "get_structure (Suc (Suc n)) cfg fs root 0 =
      map_option (\<lambda>children. Node (Directory (os_path_basename fs root) root children))
        (loop_items recurse cfg fs root sorted_items [])"
    using assms Inr
    by (simp add: depth_exhausted_Some get_structure_listdir_returns recurse_def
        sorted_items_def)
  ultimately show ?thesis
    using Inr cs by simp
qed


text \<open>The theorem at the root of \<open>fs_deep\<close>.\<close>

theorem depth_one_omits_subdirectories_witness:
  "max_depth (default_config\<lparr>max_depth := Some 1\<rparr>) = Some 1 \<and>
   (\<exists>cs. get_structure (Suc (Suc 0)) (default_config\<lparr>max_depth := Some 1\<rparr>) fs_deep ''/r'' 0 =
            Some (Node (Directory (os_path_basename fs_deep ''/r'') ''/r'' cs)) \<and>
         (\<forall>c \<in> set cs. \<not> is_Directory c \<and>
            (is_FileEntry c \<longrightarrow>
               (\<exists>items. os_listdir fs_deep ''/r'' = Inr items \<and> node_name c \<in> set items \<and>
                  node_path c = os_path_join fs_deep ''/r'' (node_name c)))))"
proof -
  have h: "max_depth (default_config\<lparr>max_depth := Some 1\<rparr>) = Some 1"
    by (simp add: default_config_def)
  from depth_one_omits_subdirectories [OF h, of 0 fs_deep "''/r''"] h
  show ?thesis by blast
qed

text \<open>
  C1 as stated fails: on \<open>fs_deep\<close> the root's list of children is empty, and holds no
  directory dictionary for \<^verbatim>\<open>sub\<close>.
\<close>

theorem depth_one_keeps_sub_counterexample:
  "get_structure 2 (default_config\<lparr>max_depth := Some 1\<rparr>) fs_deep ''/r'' 0 =
     Some (Node (Directory ''r'' ''/r'' []))"
  by code_simp

text \<open>
  C2. The root node is to be a directory dictionary for every configuration, also with
  \<^verbatim>\<open>max_depth = 0\<close>. The code does not do so: with \<^verbatim>\<open>max_depth = 0\<close> the guard of line 36
  holds in the first call, which returns \<^verbatim>\<open>{}\<close>, and \<^verbatim>\<open>print_structure\<close>, which \<^verbatim>\<open>main\<close>
  calls on the result, raises \<^verbatim>\<open>KeyError\<close> at line 97.
\<close>

theorem depth_zero_root_is_empty_dict:
  "get_structure 1 (default_config\<lparr>max_depth := Some 0\<rparr>) fs_deep ''/r'' 0 = Some EmptyDict \<and>
   print_returned EmptyDict False = Inl (KeyError ''type'')"
  by code_simp

section \<open>Failures of the listing\<close>

text \<open>
  C4. When the depth guard lets the call list the directory and \<^verbatim>\<open>os.listdir\<close> raises,
  the call returns normally: the result is the directory dictionary of the path with
  exactly one child, the error dictionary of the exception, whose name is
  \<^verbatim>\<open>[Permission Denied]\<close> for a \<^verbatim>\<open>PermissionError\<close> and \<^verbatim>\<open>[Error: <description>]\<close> for any
  other exception; \<^verbatim>\<open>get_summary\<close> of the result counts one directory, no file and one
  error.
\<close>

theorem listing_failure_becomes_error_node:
  assumes "\<not> depth_exhausted cfg d" and "os_listdir fs root = Inl e"
  shows "get_structure (Suc n) cfg fs root d =
           Some (Node (Directory (os_path_basename fs root) root [error_node e])) \<and>
         error_node e =
           (case e of PermissionError \<Rightarrow> ErrorNode ''[Permission Denied]'' ''''
                    | OtherException description \<Rightarrow> ErrorNode (''[Error: '' @ description @ '']'') '''') \<and>
         get_summary (Directory (os_path_basename fs root) root [error_node e]) =
           \<lparr>directories = 1, files = 0, errors = 1\<rparr>"
proof -
  have "get_summary (Directory name path [error_node e]) = \<lparr>directories = 1, files = 0, errors = 1\<rparr>"
    for name path
    by (cases e) (simp_all add: get_summary_def)
  with assms show ?thesis
    by (simp add: get_structure_listdir_raises split: exn.split)
qed

text \<open>The theorem at the root of \<open>fs_denied\<close>, whose listing raises \<^verbatim>\<open>PermissionError\<close>.\<close>

theorem listing_failure_becomes_error_node_witness:
  "\<not> depth_exhausted default_config 0 \<and> os_listdir fs_denied ''/r'' = Inl PermissionError \<and>
   get_structure (Suc 0) default_config fs_denied ''/r'' 0 =
     Some (Node (Directory ''r'' ''/r'' [ErrorNode ''[Permission Denied]'' ''''])) \<and>
   get_summary (Directory ''r'' ''/r'' [ErrorNode ''[Permission Denied]'' '''']) =
     \<lparr>directories = 1, files = 0, errors = 1\<rparr>"
proof -
  have h1: "\<not> depth_exhausted default_config 0"
    by (simp add: depth_exhausted_def default_config_def)
  have h2: "os_listdir fs_denied ''/r'' = Inl PermissionError"
    by (simp add: fs_denied_def mk_fs_def)
  have b: "os_path_basename fs_denied ''/r'' = ''r''"
    by (simp add: fs_denied_def mk_fs_def posix_basename_def)
  from listing_failure_becomes_error_node [OF h1 h2, of 0] h1 h2 b show ?thesis
    by simp
qed


section \<open>The children of a returned directory\<close>

text \<open>What one visited item contributes.\<close>

lemma item_outcome_Append:
  assumes "item_outcome recurse cfg fs root x = Some (Append c)"
  shows "\<not> (exclude_hidden cfg \<and> is_hidden fs (os_path_join fs root x))"
    and "os_path_isdir fs (os_path_join fs root x) \<Longrightarrow>
           recurse (os_path_join fs root x) = Some (Node c)"
    and "\<not> os_path_isdir fs (os_path_join fs root x) \<Longrightarrow>
           include_files cfg \<and> (\<exists>sz. c = FileEntry x (os_path_join fs root x) sz)"
  using assms
  by (auto simp: item_outcome_def Let_def split: if_splits option.splits pydict.splits sum.splits)

lemma item_outcome_Skip:
  assumes "item_outcome recurse cfg fs root x = Some Skip"
  shows "(exclude_hidden cfg \<and> is_hidden fs (os_path_join fs root x)) \<or>
         (os_path_isdir fs (os_path_join fs root x) \<and>
            recurse (os_path_join fs root x) = Some EmptyDict) \<or>
         (\<not> os_path_isdir fs (os_path_join fs root x) \<and> \<not> include_files cfg)"
  using assms
  by (auto simp: item_outcome_def Let_def split: if_splits option.splits pydict.splits sum.splits)

text \<open>When no error dictionary is among the children, every item was visited.\<close>

lemma loop_items_no_raise:
  assumes "loop_items recurse cfg fs root items acc = Some cs"
    and "\<forall>c \<in> set cs. \<not> is_ErrorNode c"
  shows "cs = acc @ concat (map (\<lambda>x. case item_outcome recurse cfg fs root x of
                                        Some (Append c) \<Rightarrow> [c] | _ \<Rightarrow> []) items) \<and>
         (\<forall>x \<in> set items. item_outcome recurse cfg fs root x = Some Skip \<or>
                            (\<exists>c. item_outcome recurse cfg fs root x = Some (Append c)))"
  using assms(1)
proof (induction items arbitrary: acc)
  case Nil
  then show ?case by simp
next
  case (Cons x xs)
  from Cons.prems obtain out where out: "item_outcome recurse cfg fs root x = Some out"
    by (auto simp: loop_items_Cons split: option.splits)
  show ?case
  proof (cases out)
    case Skip
    with Cons.prems out have "loop_items recurse cfg fs root xs acc = Some cs"
      by (simp add: loop_items_Cons)
    from Cons.IH [OF this] out Skip show ?thesis by simp
  next
    case (Append c)
    with Cons.prems out have "loop_items recurse cfg fs root xs (acc @ [c]) = Some cs"
      by (simp add: loop_items_Cons)
    from Cons.IH [OF this] out Append show ?thesis by simp
  next
    case (Raise e)
    with Cons.prems out have "cs = acc @ [error_node e]"
      by (simp add: loop_items_Cons)
    with assms(2) show ?thesis by simp
  qed
qed

text \<open>Where each child of a returned directory dictionary comes from.\<close>

lemma children_origin:
  assumes "get_structure (Suc n) cfg fs root d = Some (Node t)" and "c \<in> set (node_children t)"
  shows "is_ErrorNode c \<or>
         (\<exists>x items. os_listdir fs root = Inr items \<and> x \<in> set items \<and>
              \<not> (exclude_hidden cfg \<and> is_hidden fs (os_path_join fs root x)) \<and>
              node_path c = os_path_join fs root x \<and>
              (if os_path_isdir fs (os_path_join fs root x)
               then get_structure n cfg fs (os_path_join fs root x) (d + 1) = Some (Node c)
               else \<exists>sz. c = FileEntry x (os_path_join fs root x) sz))"
proof -
  from assms(1) have live: "\<not> depth_exhausted cfg d"
    by (rule get_structure_Node)
  show ?thesis
  proof (cases "os_listdir fs root")
    case (Inl e)
    with assms live show ?thesis
      by (auto simp: get_structure_listdir_raises)
  next
    case (Inr items)
    define recurse where "recurse = (\<lambda>p. get_structure n cfg fs p (d + 1))"
    define sorted_items where "sorted_items = sort_items fs root items"
    let ?Q = "\<lambda>c. is_ErrorNode c \<or>
         (\<exists>x. x \<in> set items \<and>
              \<not> (exclude_hidden cfg \<and> is_hidden fs (os_path_join fs root x)) \<and>
              node_path c = os_path_join fs root x \<and>
              (if os_path_isdir fs (os_path_join fs root x)
               then recurse (os_path_join fs root x) = Some (Node c)
               else \<exists>sz. c = FileEntry x (os_path_join fs root x) sz))"
    from assms(1) live Inr obtain cs
      where cs: "loop_items recurse cfg fs root sorted_items [] = Some cs"
        and t: "t = Directory (os_path_basename fs root) root cs"
      by (auto simp: get_structure_listdir_returns recurse_def sorted_items_def)
    have "\<forall>c \<in> set cs. ?Q c"
    proof (rule loop_items_invariant [OF cs])
      show "\<forall>c \<in> set []. ?Q c" by simp
    next
      fix x c
      assume x: "x \<in> set sorted_items"
        and out: "item_outcome recurse cfg fs root x = Some (Append c)"
      from x have mem: "x \<in> set items"
        by (simp add: sorted_items_def sort_items_def)
      have nh: "\<not> (exclude_hidden cfg \<and> is_hidden fs (os_path_join fs root x))"
        by (rule item_outcome_Append(1) [OF out])
      have "node_path c = os_path_join fs root x \<and>
            (if os_path_isdir fs (os_path_join fs root x)
             then recurse (os_path_join fs root x) = Some (Node c)
             else \<exists>sz. c = FileEntry x (os_path_join fs root x) sz)"
      proof (cases "os_path_isdir fs (os_path_join fs root x)")
        case True
        then have rec: "recurse (os_path_join fs root x) = Some (Node c)"
          by (rule item_outcome_Append(2) [OF out])
        then have "get_structure n cfg fs (os_path_join fs root x) (d + 1) = Some (Node c)"
          by (simp add: recurse_def)
        from get_structure_Node(2) [OF this]
        have "node_path c = os_path_join fs root x" by auto
        with True rec show ?thesis by simp
      next
        case False
        then have "\<exists>sz. c = FileEntry x (os_path_join fs root x) sz"
          using item_outcome_Append(3) [OF out] by simp
        with False show ?thesis by auto
      qed
      with mem nh show "?Q c" by blast
    next
      fix e
      show "?Q (error_node e)" by simp
    qed
    with assms(2) t have Q: "?Q c" by simp
    show ?thesis
    proof (cases "is_ErrorNode c")
      case True
      then show ?thesis by simp
    next
      case False
      with Q obtain x where "x \<in> set items"
        and "\<not> (exclude_hidden cfg \<and> is_hidden fs (os_path_join fs root x))"
        and "node_path c = os_path_join fs root x"
        and "if os_path_isdir fs (os_path_join fs root x)
             then recurse (os_path_join fs root x) = Some (Node c)
             else \<exists>sz. c = FileEntry x (os_path_join fs root x) sz"
        by blast
      with Inr show ?thesis
        unfolding recurse_def by blast
    qed
  qed
qed

text \<open>The paths of the children when nothing raised: the emitted items, in sorted order.\<close>

lemma item_outcome_emitted:
  assumes "item_outcome (\<lambda>p. get_structure n cfg fs p (d + 1)) cfg fs root x = Some out"
    and "\<And>e. out \<noteq> Raise e"
  shows "if emitted cfg fs root d x
         then \<exists>c. out = Append c \<and> node_path c = os_path_join fs root x
         else out = Skip"
proof (cases out)
  case Skip
  from item_outcome_Skip [OF assms(1) [unfolded Skip]]
  have "\<not> emitted cfg fs root d x"
    using get_structure_shape [of n cfg fs "os_path_join fs root x" "d + 1" EmptyDict]
    by (auto simp: emitted_def Let_def)
  with Skip show ?thesis by simp
next
  case (Append c)
  note out = assms(1) [unfolded Append]
  show ?thesis
  proof (cases "os_path_isdir fs (os_path_join fs root x)")
    case True
    with item_outcome_Append(2) [OF out]
    have rec: "get_structure n cfg fs (os_path_join fs root x) (d + 1) = Some (Node c)"
      by simp
    from get_structure_Node [OF rec] True item_outcome_Append(1) [OF out] Append
    show ?thesis by (auto simp: emitted_def Let_def)
  next
    case False
    with item_outcome_Append(3) [OF out] item_outcome_Append(1) [OF out] Append
    show ?thesis by (auto simp: emitted_def Let_def)
  qed
next
  case (Raise e)
  with assms(2) [of e] show ?thesis by simp
qed

lemma children_paths:
  assumes "get_structure (Suc n) cfg fs root d = Some (Node t)"
    and "os_listdir fs root = Inr items"
    and "\<forall>c \<in> set (node_children t). \<not> is_ErrorNode c"
  shows "map node_path (node_children t) =
           map (os_path_join fs root) (filter (emitted cfg fs root d) (sort_items fs root items))"
proof -
  define recurse where "recurse = (\<lambda>p. get_structure n cfg fs p (d + 1))"
  define sorted_items where "sorted_items = sort_items fs root items"
  define contribution where "contribution =
    (\<lambda>x. case item_outcome recurse cfg fs root x of Some (Append c) \<Rightarrow> [c] | _ \<Rightarrow> [])"
  from assms(1) have live: "\<not> depth_exhausted cfg d"
    by (rule get_structure_Node)
  with assms(1,2) obtain cs
    where cs: "loop_items recurse cfg fs root sorted_items [] = Some cs"
      and t: "t = Directory (os_path_basename fs root) root cs"
    by (auto simp: get_structure_listdir_returns recurse_def sorted_items_def)
  from assms(3) t have "\<forall>c \<in> set cs. \<not> is_ErrorNode c" by simp
  from loop_items_no_raise [OF cs this]
  have eq: "cs = concat (map contribution sorted_items)"
    and visited: "\<forall>x \<in> set sorted_items. item_outcome recurse cfg fs root x = Some Skip \<or>
                    (\<exists>c. item_outcome recurse cfg fs root x = Some (Append c))"
    by (simp_all add: contribution_def)
  have one: "map node_path (contribution x) =
               (if emitted cfg fs root d x then [os_path_join fs root x] else [])"
    if "x \<in> set sorted_items" for x
  proof -
    from visited that obtain out where out: "item_outcome recurse cfg fs root x = Some out"
      and nr: "\<And>e. out \<noteq> Raise e"
      by auto
    from item_outcome_emitted [OF out [unfolded recurse_def] nr] out
    show ?thesis by (auto simp: contribution_def)
  qed
  have "map node_path (concat (map contribution xs)) =
          map (os_path_join fs root) (filter (emitted cfg fs root d) xs)"
    if "set xs \<subseteq> set sorted_items" for xs
    using that by (induction xs) (simp_all add: one)
  with eq t show ?thesis
    by (simp add: sorted_items_def)
qed

text \<open>Every directory dictionary inside a result is itself the result of a call.\<close>

lemma subtrees_are_results:
  assumes "get_structure n cfg fs root d = Some (Node t)"
    and "D \<in> set (subtrees t)" and "is_Directory D"
  shows "\<exists>m p k. get_structure (Suc m) cfg fs p k = Some (Node D)"
  using assms
proof (induction n arbitrary: root d t)
  case 0
  then show ?case by simp
next
  case (Suc n)
  from get_structure_Node(2) [OF Suc.prems(1)] obtain cs
    where t: "t = Directory (os_path_basename fs root) root cs" by blast
  show ?case
  proof (cases "D = t")
    case True
    with Suc.prems(1) show ?thesis by blast
  next
    case False
    with Suc.prems(2) t obtain c where c: "c \<in> set cs" and D: "D \<in> set (subtrees c)"
      by auto
    from c t have "c \<in> set (node_children t)" by simp
    from children_origin [OF Suc.prems(1) this]
    consider "is_ErrorNode c" | "is_FileEntry c"
      | p where "get_structure n cfg fs p (d + 1) = Some (Node c)"
      by (auto split: if_splits)
    then show ?thesis
    proof cases
      case 1
      with D Suc.prems(3) show ?thesis by (cases c) auto
    next
      case 2
      with D Suc.prems(3) show ?thesis by (cases c) auto
    next
      case (3 p)
      from Suc.IH [OF this D Suc.prems(3)] show ?thesis .
    qed
  qed
qed

lemma emitted_item_has_child:
  assumes "get_structure (Suc n) cfg fs root d = Some (Node t)"
    and "os_listdir fs root = Inr items"
    and "\<forall>c \<in> set (node_children t). \<not> is_ErrorNode c"
    and "x \<in> set items" and "emitted cfg fs root d x"
  shows "\<exists>c \<in> set (node_children t).
           item_outcome (\<lambda>p. get_structure n cfg fs p (d + 1)) cfg fs root x = Some (Append c)"
proof -
  define recurse where "recurse = (\<lambda>p. get_structure n cfg fs p (d + 1))"
  define sorted_items where "sorted_items = sort_items fs root items"
  define contribution where "contribution =
    (\<lambda>x. case item_outcome recurse cfg fs root x of Some (Append c) \<Rightarrow> [c] | _ \<Rightarrow> [])"
  from assms(1) have live: "\<not> depth_exhausted cfg d"
    by (rule get_structure_Node)
  with assms(1,2) obtain cs
    where cs: "loop_items recurse cfg fs root sorted_items [] = Some cs"
      and t: "t = Directory (os_path_basename fs root) root cs"
    by (auto simp: get_structure_listdir_returns recurse_def sorted_items_def)
  from assms(3) t have "\<forall>c \<in> set cs. \<not> is_ErrorNode c" by simp
  from loop_items_no_raise [OF cs this]
  have eq: "cs = concat (map contribution sorted_items)"
    and visited: "\<forall>x \<in> set sorted_items. item_outcome recurse cfg fs root x = Some Skip \<or>
                    (\<exists>c. item_outcome recurse cfg fs root x = Some (Append c))"
    by (simp_all add: contribution_def)
  from assms(4) have x: "x \<in> set sorted_items"
    by (simp add: sorted_items_def sort_items_def)
  with visited obtain out where out: "item_outcome recurse cfg fs root x = Some out"
    and nr: "\<And>e. out \<noteq> Raise e"
    by auto
  from item_outcome_emitted [OF out [unfolded recurse_def] nr] assms(5)
  obtain c where c: "out = Append c" by auto
  with out have "c \<in> set (contribution x)"
    by (simp add: contribution_def)
  with x eq have "c \<in> set cs" by auto
  with t out c show ?thesis
    by (auto simp: recurse_def)
qed

lemma get_structure_empty_listing:
  assumes "get_structure n cfg fs root d = Some (Node t)" and "os_listdir fs root = Inr []"
  shows "t = Directory (os_path_basename fs root) root []"
proof (cases n)
  case 0
  with assms show ?thesis by simp
next
  case (Suc m)
  from assms(1) have "\<not> depth_exhausted cfg d"
    by (rule get_structure_Node)
  with assms Suc show ?thesis
    by (simp add: get_structure_listdir_returns sort_items_def)
qed

section \<open>Which subdirectories are left out\<close>

text \<open>
  C3, as amended. Let the call on a directory return a dictionary without an error child,
  and let \<open>item\<close> be a listed subdirectory that is not skipped as hidden. If the depth
  limit is reached one level below, no directory dictionary is among the children: the
  call on the item returned \<^verbatim>\<open>{}\<close>, which is false, and line 62 did not append it.
  Otherwise the item's directory dictionary is among the children, also when the item
  lists no entry at all: its dictionary then has an empty list of children, and, having
  four entries, is true.
\<close>

theorem subdirectory_dropped_only_at_depth_limit:
  assumes "get_structure (Suc n) cfg fs root d = Some (Node t)"
    and "os_listdir fs root = Inr items" and "item \<in> set items"
    and "os_path_isdir fs (os_path_join fs root item)"
    and "\<not> (exclude_hidden cfg \<and> is_hidden fs (os_path_join fs root item))"
    and "\<forall>c \<in> set (node_children t). \<not> is_ErrorNode c"
  shows "if depth_exhausted cfg (d + 1)
         then \<forall>c \<in> set (node_children t). \<not> is_Directory c
         else \<exists>cs. Directory (os_path_basename fs (os_path_join fs root item))
                     (os_path_join fs root item) cs \<in> set (node_children t) \<and>
                   (os_listdir fs (os_path_join fs root item) = Inr [] \<longrightarrow> cs = []) \<and>
                   truthy (node_dict (Directory (os_path_basename fs (os_path_join fs root item))
                     (os_path_join fs root item) cs))"
proof (cases "depth_exhausted cfg (d + 1)")
  case True
  have "\<not> is_Directory c" if "c \<in> set (node_children t)" for c
  proof
    assume dir: "is_Directory c"
    from children_origin [OF assms(1) that] dir
    obtain x where "get_structure n cfg fs (os_path_join fs root x) (d + 1) = Some (Node c)"
      by (cases c) (auto split: if_splits)
    from get_structure_Node(1) [OF this] True show False by simp
  qed
  with True show ?thesis by simp
next
  case False
  let ?p = "os_path_join fs root item"
  from False assms(4,5) have "emitted cfg fs root d item"
    by (simp add: emitted_def Let_def)
  from emitted_item_has_child [OF assms(1,2,6,3) this]
  obtain c where c: "c \<in> set (node_children t)"
    and out: "item_outcome (\<lambda>p. get_structure n cfg fs p (d + 1)) cfg fs root item =
                Some (Append c)"
    by blast
  from item_outcome_Append(2) [OF out assms(4)]
  have rec: "get_structure n cfg fs ?p (d + 1) = Some (Node c)" .
  from get_structure_Node(2) [OF rec] obtain cs
    where cs: "c = Directory (os_path_basename fs ?p) ?p cs" by blast
  have "cs = []" if "os_listdir fs ?p = Inr []"
    using get_structure_empty_listing [OF rec that] cs by simp
  with c cs False show ?thesis by auto
qed

text \<open>The theorem at the root of \<open>fs_mixed\<close> and its empty subdirectory \<^verbatim>\<open>A\<close>.\<close>

theorem subdirectory_dropped_only_at_depth_limit_witness:
  "get_structure (Suc 1) (default_config\<lparr>include_files := False\<rparr>) fs_mixed ''/r'' 0 =
     Some (Node (Directory ''r'' ''/r'' [Directory ''A'' ''/r/A'' [], Directory ''B'' ''/r/B'' []])) \<and>
   os_listdir fs_mixed ''/r'' = Inr [''b.txt'', ''A'', ''a.txt'', ''B''] \<and>
   ''A'' \<in> set [''b.txt'', ''A'', ''a.txt'', ''B''] \<and>
   os_path_isdir fs_mixed (os_path_join fs_mixed ''/r'' ''A'') \<and>
   \<not> (exclude_hidden (default_config\<lparr>include_files := False\<rparr>) \<and>
      is_hidden fs_mixed (os_path_join fs_mixed ''/r'' ''A'')) \<and>
   list_all (\<lambda>c. \<not> is_ErrorNode c) (node_children (Directory ''r'' ''/r''
        [Directory ''A'' ''/r/A'' [], Directory ''B'' ''/r/B'' []])) \<and>
   \<not> depth_exhausted (default_config\<lparr>include_files := False\<rparr>) (0 + 1) \<and>
   (\<exists>cs. Directory (os_path_basename fs_mixed (os_path_join fs_mixed ''/r'' ''A''))
           (os_path_join fs_mixed ''/r'' ''A'') cs
           \<in> set (node_children (Directory ''r'' ''/r''
                [Directory ''A'' ''/r/A'' [], Directory ''B'' ''/r/B'' []])) \<and>
         (os_listdir fs_mixed (os_path_join fs_mixed ''/r'' ''A'') = Inr [] \<longrightarrow> cs = []))"
proof -
  let ?cfg = "default_config\<lparr>include_files := False\<rparr>"
  let ?t = "Directory ''r'' ''/r'' [Directory ''A'' ''/r/A'' [], Directory ''B'' ''/r/B'' []]"
  have h1: "get_structure (Suc 1) ?cfg fs_mixed ''/r'' 0 = Some (Node ?t)"
    by code_simp
  have h2: "os_listdir fs_mixed ''/r'' = Inr [''b.txt'', ''A'', ''a.txt'', ''B'']"
    by code_simp
  have h3: "''A'' \<in> set [''b.txt'', ''A'', ''a.txt'', ''B'']"
    by simp
  have h4: "os_path_isdir fs_mixed (os_path_join fs_mixed ''/r'' ''A'')"
    by code_simp
  have h5: "\<not> (exclude_hidden ?cfg \<and> is_hidden fs_mixed (os_path_join fs_mixed ''/r'' ''A''))"
    by code_simp
  have h6: "\<forall>c \<in> set (node_children ?t). \<not> is_ErrorNode c"
    by simp
  have live: "\<not> depth_exhausted ?cfg (0 + 1)"
    by (simp add: depth_exhausted_def default_config_def)
  from subdirectory_dropped_only_at_depth_limit [OF h1 h2 h3 h4 h5 h6] live
  have "\<exists>cs. Directory (os_path_basename fs_mixed (os_path_join fs_mixed ''/r'' ''A''))
           (os_path_join fs_mixed ''/r'' ''A'') cs \<in> set (node_children ?t) \<and>
         (os_listdir fs_mixed (os_path_join fs_mixed ''/r'' ''A'') = Inr [] \<longrightarrow> cs = [])"
    by auto
  moreover have "list_all (\<lambda>c. \<not> is_ErrorNode c) (node_children ?t)"
    by simp
  ultimately show ?thesis
    using h1 h2 h3 h4 h5 live by blast
qed

text \<open>
  C3 as stated fails: \<^verbatim>\<open>A\<close> lists no entry, there is no depth limit, and the directory
  dictionaries of \<^verbatim>\<open>A\<close> and \<^verbatim>\<open>B\<close> are among the children of the root.
\<close>

theorem empty_directory_kept_counterexample:
  "get_structure 2 (default_config\<lparr>include_files := False\<rparr>) fs_mixed ''/r'' 0 =
     Some (Node (Directory ''r'' ''/r'' [Directory ''A'' ''/r/A'' [], Directory ''B'' ''/r/B'' []])) \<and>
   os_listdir fs_mixed ''/r/A'' = Inr []"
  by code_simp

section \<open>The order of the children\<close>

text \<open>The loop keeps the order of the sorted items.\<close>

lemma loop_items_sorted:
  fixes ik :: "string \<Rightarrow> 'k::linorder" and nk :: "node \<Rightarrow> 'k"
  assumes "loop_items recurse cfg fs root items acc = Some cs"
    and "sorted (map ik items)"
    and "\<forall>a \<in> set acc. \<not> is_ErrorNode a"
    and "sorted (map nk acc)"
    and "\<forall>a \<in> set acc. \<forall>x \<in> set items. nk a \<le> ik x"
    and "\<And>x c. x \<in> set items \<Longrightarrow> item_outcome recurse cfg fs root x = Some (Append c) \<Longrightarrow>
           \<not> is_ErrorNode c \<and> nk c = ik x"
  shows "sorted (map nk (filter (\<lambda>c. \<not> is_ErrorNode c) cs))"
  using assms
proof (induction items arbitrary: acc)
  case Nil
  then have "filter (\<lambda>c. \<not> is_ErrorNode c) cs = cs"
    by (auto simp: filter_id_conv)
  with Nil show ?case by simp
next
  case (Cons x xs)
  from Cons.prems(1) obtain out where out: "item_outcome recurse cfg fs root x = Some out"
    by (auto simp: loop_items_Cons split: option.splits)
  from Cons.prems(2) have sorted_xs: "sorted (map ik xs)" and least: "\<forall>y \<in> set xs. ik x \<le> ik y"
    by simp_all
  show ?case
  proof (cases out)
    case Skip
    with Cons.prems(1) out have run: "loop_items recurse cfg fs root xs acc = Some cs"
      by (simp add: loop_items_Cons)
    show ?thesis
    proof (rule Cons.IH [OF run sorted_xs Cons.prems(3,4)])
      show "\<forall>a \<in> set acc. \<forall>y \<in> set xs. nk a \<le> ik y"
        using Cons.prems(5) by simp
    next
      fix y c
      assume "y \<in> set xs" and "item_outcome recurse cfg fs root y = Some (Append c)"
      then show "\<not> is_ErrorNode c \<and> nk c = ik y"
        using Cons.prems(6) [of y c] by simp
    qed
  next
    case (Append c)
    with Cons.prems(1) out have run: "loop_items recurse cfg fs root xs (acc @ [c]) = Some cs"
      by (simp add: loop_items_Cons)
    from Cons.prems(6) [of x c] out Append have c: "\<not> is_ErrorNode c" "nk c = ik x"
      by simp_all
    show ?thesis
    proof (rule Cons.IH [OF run sorted_xs])
      show "\<forall>a \<in> set (acc @ [c]). \<not> is_ErrorNode a"
        using Cons.prems(3) c(1) by simp
    next
      show "sorted (map nk (acc @ [c]))"
        using Cons.prems(4,5) c(2) by (simp add: sorted_append)
    next
      show "\<forall>a \<in> set (acc @ [c]). \<forall>y \<in> set xs. nk a \<le> ik y"
        using Cons.prems(5) least c(2) by simp
    next
      fix y c'
      assume "y \<in> set xs" and "item_outcome recurse cfg fs root y = Some (Append c')"
      then show "\<not> is_ErrorNode c' \<and> nk c' = ik y"
        using Cons.prems(6) [of y c'] by simp
    qed
  next
    case (Raise e)
    with Cons.prems(1) out have "cs = acc @ [error_node e]"
      by (simp add: loop_items_Cons)
    moreover from Cons.prems(3) have "filter (\<lambda>c. \<not> is_ErrorNode c) acc = acc"
      by (auto simp: filter_id_conv)
    ultimately show ?thesis
      using Cons.prems(4) by simp
  qed
qed

lemma sorted_by_kind:
  assumes "sorted (map (\<lambda>c. (\<not> is_Directory c, lower_of (node_name c)))
                     (filter (\<lambda>c. \<not> is_ErrorNode c) cs))"
  shows "children_ordered lower_of cs"
  using assms
proof (induction cs)
  case Nil
  show ?case by (simp add: children_ordered_def)
next
  case (Cons y ys)
  show ?case
  proof (cases "is_ErrorNode y")
    case True
    then have "\<not> is_Directory y" "\<not> is_FileEntry y"
      by (cases y; simp)+
    with True Cons show ?thesis
      by (simp add: children_ordered_def)
  next
    case entry: False
    with Cons.prems
    have least: "\<forall>z \<in> set ys. \<not> is_ErrorNode z \<longrightarrow>
                   (\<not> is_Directory y, lower_of (node_name y))
                     \<le> (\<not> is_Directory z, lower_of (node_name z))"
      and rest: "sorted (map (\<lambda>c. (\<not> is_Directory c, lower_of (node_name c)))
                     (filter (\<lambda>c. \<not> is_ErrorNode c) ys))"
      by auto
    from Cons.IH [OF rest]
    have IH: "filter (\<lambda>c. \<not> is_ErrorNode c) ys = filter is_Directory ys @ filter is_FileEntry ys"
      "sorted (map (\<lambda>c. lower_of (node_name c)) (filter is_Directory ys))"
      "sorted (map (\<lambda>c. lower_of (node_name c)) (filter is_FileEntry ys))"
      by (simp_all add: children_ordered_def)
    have kinds: "\<not> is_ErrorNode z" if "is_Directory z \<or> is_FileEntry z" for z
      using that by (cases z) simp_all
    show ?thesis
    proof (cases "is_Directory y")
      case True
      then have "\<not> is_FileEntry y" by (cases y) simp_all
      moreover from least True kinds
      have "\<forall>z \<in> set (filter is_Directory ys). lower_of (node_name y) \<le> lower_of (node_name z)"
        by auto
      ultimately show ?thesis
        using True entry IH by (simp add: children_ordered_def)
    next
      case False
      with entry have fl: "is_FileEntry y" by (cases y) simp_all
      from least False kinds have "\<forall>z \<in> set ys. \<not> is_Directory z"
        by auto
      then have nodir: "filter is_Directory ys = []"
        by (simp add: filter_empty_conv)
      from least False kinds
      have "\<forall>z \<in> set (filter is_FileEntry ys). lower_of (node_name y) \<le> lower_of (node_name z)"
        by auto
      with nodir show ?thesis
        using False fl entry IH by (simp add: children_ordered_def)
    qed
  qed
qed

lemma children_ordered_root:
  assumes "get_structure (Suc n) cfg fs root d = Some (Node t)" and "names_coherent fs"
  shows "children_ordered (str_lower fs) (node_children t)"
proof -
  from assms(1) have live: "\<not> depth_exhausted cfg d"
    by (rule get_structure_Node)
  show ?thesis
  proof (cases "os_listdir fs root")
    case (Inl e)
    with assms(1) live have "node_children t = [error_node e]"
      by (auto simp: get_structure_listdir_raises)
    then show ?thesis
      by (simp add: children_ordered_def)
  next
    case (Inr items)
    define recurse where "recurse = (\<lambda>p. get_structure n cfg fs p (d + 1))"
    define ik where "ik = (\<lambda>x. (\<not> os_path_isdir fs (os_path_join fs root x), str_lower fs x))"
    define nk where "nk = (\<lambda>c. (\<not> is_Directory c, str_lower fs (node_name c)))"
    define sorted_items where "sorted_items = sort_items fs root items"
    from assms(1) live Inr obtain cs
      where cs: "loop_items recurse cfg fs root sorted_items [] = Some cs"
        and t: "t = Directory (os_path_basename fs root) root cs"
      by (auto simp: get_structure_listdir_returns recurse_def sorted_items_def)
    have sorted_keys: "sorted (map ik sorted_items)"
      by (simp add: sorted_items_def sort_items_def ik_def)
    have key: "\<not> is_ErrorNode c \<and> nk c = ik x"
      if x: "x \<in> set sorted_items" and out: "item_outcome recurse cfg fs root x = Some (Append c)"
      for x c
    proof (cases "os_path_isdir fs (os_path_join fs root x)")
      case True
      from item_outcome_Append(2) [OF out True]
      have "get_structure n cfg fs (os_path_join fs root x) (d + 1) = Some (Node c)"
        by (simp add: recurse_def)
      from get_structure_Node(2) [OF this] obtain cs'
        where c: "c = Directory (os_path_basename fs (os_path_join fs root x))
                      (os_path_join fs root x) cs'"
        by blast
      from x have "x \<in> set items"
        by (simp add: sorted_items_def sort_items_def)
      with assms(2) Inr have "os_path_basename fs (os_path_join fs root x) = x"
        by (simp add: names_coherent_def)
      with c True show ?thesis
        by (simp add: nk_def ik_def)
    next
      case False
      from item_outcome_Append(3) [OF out False] obtain sz
        where "c = FileEntry x (os_path_join fs root x) sz" by blast
      with False show ?thesis
        by (simp add: nk_def ik_def)
    qed
    have "sorted (map nk (filter (\<lambda>c. \<not> is_ErrorNode c) cs))"
      by (rule loop_items_sorted [OF cs sorted_keys _ _ _ key]) simp_all
    then have "children_ordered (str_lower fs) cs"
      unfolding nk_def by (rule sorted_by_kind)
    with t show ?thesis by simp
  qed
qed

text \<open>
  C5. On a file system where the base name of a listed entry's path is the entry's name,
  every directory dictionary in a returned tree has its children in order: the
  directories before the files, each group ascending in \<^verbatim>\<open>x.lower()\<close> of the name. The
  dictionaries are values, so nothing changes the order afterwards.
\<close>

theorem children_are_ordered:
  assumes "get_structure n cfg fs root d = Some (Node t)" and "names_coherent fs"
  shows "\<forall>D \<in> set (subtrees t). is_Directory D \<longrightarrow>
           children_ordered (str_lower fs) (node_children D)"
proof (intro ballI impI)
  fix D
  assume "D \<in> set (subtrees t)" and "is_Directory D"
  with subtrees_are_results [OF assms(1)] obtain m p k
    where "get_structure (Suc m) cfg fs p k = Some (Node D)" by blast
  then show "children_ordered (str_lower fs) (node_children D)"
    using assms(2) by (rule children_ordered_root)
qed

text \<open>
  The theorem at the root of \<open>fs_mixed\<close>, whose entries \<^verbatim>\<open>b.txt\<close>, \<^verbatim>\<open>A\<close>, \<^verbatim>\<open>a.txt\<close>, \<^verbatim>\<open>B\<close>
  come out as \<^verbatim>\<open>A\<close>, \<^verbatim>\<open>B\<close>, \<^verbatim>\<open>a.txt\<close>, \<^verbatim>\<open>b.txt\<close>, and at the root of \<open>fs_accent\<close>, whose
  two names keep the order of the listing: folded, the first is U+00E9 \<^verbatim>\<open>a\<close> and the
  second U+00E9 \<^verbatim>\<open>b\<close>.
\<close>

lemma names_coherent_fs_mixed: "names_coherent fs_mixed"
  unfolding names_coherent_def fs_mixed_def mk_fs_def
  by (auto simp: posix_join_def posix_basename_def startswith_def endswith_def split: if_splits)

lemma names_coherent_fs_accent: "names_coherent fs_accent"
  unfolding names_coherent_def fs_accent_def mk_fs_def
  by (auto simp: posix_join_def posix_basename_def startswith_def endswith_def split: if_splits)

theorem children_are_ordered_witness:
  "get_structure 2 default_config fs_mixed ''/r'' 0 =
     Some (Node (Directory ''r'' ''/r''
       [Directory ''A'' ''/r/A'' [], Directory ''B'' ''/r/B'' [],
        FileEntry ''a.txt'' ''/r/a.txt'' 1, FileEntry ''b.txt'' ''/r/b.txt'' 2])) \<and>
   names_coherent fs_mixed \<and>
   list_all (\<lambda>D. children_ordered (str_lower fs_mixed) (node_children D))
     (filter is_Directory (subtrees (Directory ''r'' ''/r''
       [Directory ''A'' ''/r/A'' [], Directory ''B'' ''/r/B'' [],
        FileEntry ''a.txt'' ''/r/a.txt'' 1, FileEntry ''b.txt'' ''/r/b.txt'' 2]))) \<and>
   get_structure 1 default_config fs_accent ''/r'' 0 =
     Some (Node (Directory ''r'' ''/r''
       [FileEntry [CHR 0xC3, CHR 0xA9, CHR ''a''] (''/r/'' @ [CHR 0xC3, CHR 0xA9, CHR ''a'']) 1,
        FileEntry [CHR 0xC3, CHR 0x89, CHR ''b''] (''/r/'' @ [CHR 0xC3, CHR 0x89, CHR ''b'']) 2])) \<and>
   names_coherent fs_accent \<and>
   list_all (\<lambda>D. children_ordered (str_lower fs_accent) (node_children D))
     (filter is_Directory (subtrees (Directory ''r'' ''/r''
       [FileEntry [CHR 0xC3, CHR 0xA9, CHR ''a''] (''/r/'' @ [CHR 0xC3, CHR 0xA9, CHR ''a'']) 1,
        FileEntry [CHR 0xC3, CHR 0x89, CHR ''b''] (''/r/'' @ [CHR 0xC3, CHR 0x89, CHR ''b'']) 2])))"
proof -
  let ?t = "Directory ''r'' ''/r''
       [Directory ''A'' ''/r/A'' [], Directory ''B'' ''/r/B'' [],
        FileEntry ''a.txt'' ''/r/a.txt'' 1, FileEntry ''b.txt'' ''/r/b.txt'' 2]"
  let ?u = "Directory ''r'' ''/r''
       [FileEntry [CHR 0xC3, CHR 0xA9, CHR ''a''] (''/r/'' @ [CHR 0xC3, CHR 0xA9, CHR ''a'']) 1,
        FileEntry [CHR 0xC3, CHR 0x89, CHR ''b''] (''/r/'' @ [CHR 0xC3, CHR 0x89, CHR ''b'']) 2]"
  have h1: "get_structure 2 default_config fs_mixed ''/r'' 0 = Some (Node ?t)"
    by code_simp
  have h2: "get_structure 1 default_config fs_accent ''/r'' 0 = Some (Node ?u)"
    by code_simp
  from children_are_ordered [OF h1 names_coherent_fs_mixed]
  have a: "list_all (\<lambda>D. children_ordered (str_lower fs_mixed) (node_children D))
             (filter is_Directory (subtrees ?t))"
    unfolding list_all_iff by simp
  from children_are_ordered [OF h2 names_coherent_fs_accent]
  have b: "list_all (\<lambda>D. children_ordered (str_lower fs_accent) (node_children D))
             (filter is_Directory (subtrees ?u))"
    unfolding list_all_iff by simp
  from h1 names_coherent_fs_mixed a h2 names_coherent_fs_accent b show ?thesis
    by blast
qed

section \<open>Hidden entries\<close>

text \<open>
  C6. With \<^verbatim>\<open>exclude_hidden\<close> set, no child anywhere in a returned tree, other than an
  error dictionary, has a path that \<^verbatim>\<open>is_hidden\<close> takes for hidden. With
  \<^verbatim>\<open>exclude_hidden\<close> not set, and no error child, the paths of the children of the root
  are those of all listed entries, hidden or not, in the sorted order, less the
  directories below the depth limit and, when \<^verbatim>\<open>include_files\<close> is not set, the files.
\<close>

theorem hidden_entries_filtered:
  assumes "get_structure (Suc n) cfg fs root d = Some (Node t)"
  shows "(exclude_hidden cfg \<longrightarrow>
            (\<forall>D \<in> set (subtrees t). \<forall>c \<in> set (node_children D).
               \<not> is_ErrorNode c \<longrightarrow> \<not> is_hidden fs (node_path c))) \<and>
         (\<not> exclude_hidden cfg \<longrightarrow>
            (\<forall>items. os_listdir fs root = Inr items \<longrightarrow>
               (\<forall>c \<in> set (node_children t). \<not> is_ErrorNode c) \<longrightarrow>
               map node_path (node_children t) =
                 map (os_path_join fs root)
                   (filter (\<lambda>item. if os_path_isdir fs (os_path_join fs root item)
                                    then \<not> depth_exhausted cfg (d + 1) else include_files cfg)
                      (sort_items fs root items))))"
proof (intro conjI impI allI ballI)
  fix D c
  assume hid: "exclude_hidden cfg" and D: "D \<in> set (subtrees t)"
    and c: "c \<in> set (node_children D)" and entry: "\<not> is_ErrorNode c"
  from c have "is_Directory D"
    by (cases D) auto
  with subtrees_are_results [OF assms D] obtain m p k
    where "get_structure (Suc m) cfg fs p k = Some (Node D)" by blast
  from children_origin [OF this c] entry hid
  show "\<not> is_hidden fs (node_path c)" by auto
next
  fix items
  assume shown: "\<not> exclude_hidden cfg" and ls: "os_listdir fs root = Inr items"
    and ok: "\<forall>c \<in> set (node_children t). \<not> is_ErrorNode c"
  from shown have "emitted cfg fs root d =
      (\<lambda>item. if os_path_isdir fs (os_path_join fs root item)
               then \<not> depth_exhausted cfg (d + 1) else include_files cfg)"
    by (simp add: emitted_def Let_def fun_eq_iff)
  with children_paths [OF assms ls ok]
  show "map node_path (node_children t) =
          map (os_path_join fs root)
            (filter (\<lambda>item. if os_path_isdir fs (os_path_join fs root item)
                             then \<not> depth_exhausted cfg (d + 1) else include_files cfg)
               (sort_items fs root items))"
    by simp
qed

text \<open>
  The theorem at the root of \<open>fs_hidden\<close>, once with \<^verbatim>\<open>exclude_hidden\<close> set, where
  \<^verbatim>\<open>.git\<close> and \<^verbatim>\<open>.env\<close> have no child, and once without, where they come first in their
  groups.
\<close>

theorem hidden_entries_filtered_witness:
  "get_structure (Suc 2) default_config fs_hidden ''/.cfg'' 0 =
     Some (Node (Directory ''.cfg'' ''/.cfg'' [FileEntry ''main.py'' ''/.cfg/main.py'' 5])) \<and>
   exclude_hidden default_config \<and>
   list_all (\<lambda>D. list_all (\<lambda>c. is_ErrorNode c \<or> \<not> is_hidden fs_hidden (node_path c))
                    (node_children D))
     (subtrees (Directory ''.cfg'' ''/.cfg'' [FileEntry ''main.py'' ''/.cfg/main.py'' 5])) \<and>
   get_structure (Suc 2) (default_config\<lparr>exclude_hidden := False\<rparr>) fs_hidden ''/.cfg'' 0 =
     Some (Node (Directory ''.cfg'' ''/.cfg''
       [Directory ''.git'' ''/.cfg/.git'' [FileEntry ''HEAD'' ''/.cfg/.git/HEAD'' 4],
        FileEntry ''.env'' ''/.cfg/.env'' 3, FileEntry ''main.py'' ''/.cfg/main.py'' 5])) \<and>
   \<not> exclude_hidden (default_config\<lparr>exclude_hidden := False\<rparr>) \<and>
   os_listdir fs_hidden ''/.cfg'' = Inr [''.git'', ''main.py'', ''.env''] \<and>
   map node_path (node_children (Directory ''.cfg'' ''/.cfg''
       [Directory ''.git'' ''/.cfg/.git'' [FileEntry ''HEAD'' ''/.cfg/.git/HEAD'' 4],
        FileEntry ''.env'' ''/.cfg/.env'' 3, FileEntry ''main.py'' ''/.cfg/main.py'' 5])) =
     map (os_path_join fs_hidden ''/.cfg'')
       (filter (\<lambda>item. if os_path_isdir fs_hidden (os_path_join fs_hidden ''/.cfg'' item)
                        then \<not> depth_exhausted (default_config\<lparr>exclude_hidden := False\<rparr>) (0 + 1)
                        else include_files (default_config\<lparr>exclude_hidden := False\<rparr>))
          (sort_items fs_hidden ''/.cfg'' [''.git'', ''main.py'', ''.env'']))"
proof -
  let ?t1 = "Directory ''.cfg'' ''/.cfg'' [FileEntry ''main.py'' ''/.cfg/main.py'' 5]"
  let ?cfg2 = "default_config\<lparr>exclude_hidden := False\<rparr>"
  let ?t2 = "Directory ''.cfg'' ''/.cfg''
       [Directory ''.git'' ''/.cfg/.git'' [FileEntry ''HEAD'' ''/.cfg/.git/HEAD'' 4],
        FileEntry ''.env'' ''/.cfg/.env'' 3, FileEntry ''main.py'' ''/.cfg/main.py'' 5]"
  have r1: "get_structure (Suc 2) default_config fs_hidden ''/.cfg'' 0 = Some (Node ?t1)"
    by code_simp
  have e1: "exclude_hidden default_config"
    by (simp add: default_config_def)
  have r2: "get_structure (Suc 2) ?cfg2 fs_hidden ''/.cfg'' 0 = Some (Node ?t2)"
    by code_simp
  have e2: "\<not> exclude_hidden ?cfg2"
    by simp
  have ls: "os_listdir fs_hidden ''/.cfg'' = Inr [''.git'', ''main.py'', ''.env'']"
    by code_simp
  have ok: "\<forall>c \<in> set (node_children ?t2). \<not> is_ErrorNode c"
    by simp
  from hidden_entries_filtered [OF r1] e1
  have "\<forall>D \<in> set (subtrees ?t1). \<forall>c \<in> set (node_children D).
             \<not> is_ErrorNode c \<longrightarrow> \<not> is_hidden fs_hidden (node_path c)"
    by blast
  then have a: "list_all (\<lambda>D. list_all (\<lambda>c. is_ErrorNode c \<or> \<not> is_hidden fs_hidden (node_path c))
                    (node_children D)) (subtrees ?t1)"
    unfolding list_all_iff by blast
  from hidden_entries_filtered [OF r2] e2 ls ok
  have b: "map node_path (node_children ?t2) =
     map (os_path_join fs_hidden ''/.cfg'')
       (filter (\<lambda>item. if os_path_isdir fs_hidden (os_path_join fs_hidden ''/.cfg'' item)
                        then \<not> depth_exhausted ?cfg2 (0 + 1) else include_files ?cfg2)
          (sort_items fs_hidden ''/.cfg'' [''.git'', ''main.py'', ''.env'']))"
    by blast
  from r1 e1 a r2 e2 ls b show ?thesis by blast
qed

text \<open>
  C10. With \<^verbatim>\<open>exclude_hidden\<close> set, a call on a path whose own base name starts with a dot
  that gets past the depth guard, as the call on any other path must, and whose walk
  ends, returns the directory dictionary of that path; when no child is an error
  dictionary, its children are those of the listed entries that are emitted, in the
  sorted order. \<^verbatim>\<open>is_hidden\<close> is asked about the listed entries only, never about the path
  of the call.
\<close>

theorem hidden_root_is_built:
  assumes "exclude_hidden cfg" and "is_hidden fs root" and "\<not> depth_exhausted cfg d"
    and "walk_ends h cfg fs root d"
  shows "\<exists>cs. get_structure h cfg fs root d =
                 Some (Node (Directory (os_path_basename fs root) root cs)) \<and>
              (\<forall>items. os_listdir fs root = Inr items \<longrightarrow> (\<forall>c \<in> set cs. \<not> is_ErrorNode c) \<longrightarrow>
                 map node_path cs =
                   map (os_path_join fs root)
                     (filter (emitted cfg fs root d) (sort_items fs root items)))"
proof -
  from assms(4) obtain n where h: "h = Suc n"
    by (cases h) auto
  from assms(4) obtain r where "get_structure h cfg fs root d = Some r"
    using walk_ends_returns by blast
  with assms(3) obtain cs
    where r: "get_structure h cfg fs root d =
                Some (Node (Directory (os_path_basename fs root) root cs))"
    using get_structure_shape by blast
  have "map node_path cs =
          map (os_path_join fs root) (filter (emitted cfg fs root d) (sort_items fs root items))"
    if "os_listdir fs root = Inr items" and "\<forall>c \<in> set cs. \<not> is_ErrorNode c" for items
    using children_paths [OF r [unfolded h] that(1)] that(2) by simp
  with r show ?thesis by blast
qed

text \<open>
  The theorem at the root of \<open>fs_hidden\<close>, whose base name is \<^verbatim>\<open>.cfg\<close>: the one child is
  \<^verbatim>\<open>main.py\<close>.
\<close>

theorem hidden_root_is_built_witness:
  "exclude_hidden default_config \<and> is_hidden fs_hidden ''/.cfg'' \<and>
   \<not> depth_exhausted default_config 0 \<and> walk_ends 3 default_config fs_hidden ''/.cfg'' 0 \<and>
   get_structure 3 default_config fs_hidden ''/.cfg'' 0 =
     Some (Node (Directory ''.cfg'' ''/.cfg'' [FileEntry ''main.py'' ''/.cfg/main.py'' 5])) \<and>
   (\<exists>cs. get_structure 3 default_config fs_hidden ''/.cfg'' 0 =
            Some (Node (Directory (os_path_basename fs_hidden ''/.cfg'') ''/.cfg'' cs)) \<and>
         (\<forall>items. os_listdir fs_hidden ''/.cfg'' = Inr items \<longrightarrow>
            (\<forall>c \<in> set cs. \<not> is_ErrorNode c) \<longrightarrow>
            map node_path cs =
              map (os_path_join fs_hidden ''/.cfg'')
                (filter (emitted default_config fs_hidden ''/.cfg'' 0)
                   (sort_items fs_hidden ''/.cfg'' items))))"
proof -
  have h1: "exclude_hidden default_config"
    by (simp add: default_config_def)
  have h2: "is_hidden fs_hidden ''/.cfg''"
    by code_simp
  have h3: "\<not> depth_exhausted default_config 0"
    by (simp add: depth_exhausted_def default_config_def)
  have h4: "walk_ends 3 default_config fs_hidden ''/.cfg'' 0"
    by code_simp
  have run: "get_structure 3 default_config fs_hidden ''/.cfg'' 0 =
     Some (Node (Directory ''.cfg'' ''/.cfg'' [FileEntry ''main.py'' ''/.cfg/main.py'' 5]))"
    by code_simp
  from hidden_root_is_built [OF h1 h2 h3 h4] h1 h2 h3 h4 run
  show ?thesis by blast
qed

section \<open>The summary\<close>

text \<open>\<^verbatim>\<open>count_items\<close> adds the count of the nodes of its argument to the running count.\<close>

lemma tally_append: "tally (xs @ ys) = add_stats (tally xs) (tally ys)"
  by (simp add: tally_def add_stats_def)

lemma add_stats_assoc: "add_stats (add_stats a b) c = add_stats a (add_stats b c)"
  by (simp add: add_stats_def)

lemma fold_count_items:
  assumes "\<And>c st. c \<in> set cs \<Longrightarrow> count_items c st = add_stats st (tally (subtrees c))"
  shows "fold count_items cs st = add_stats st (tally (concat (map subtrees cs)))"
  using assms
proof (induction cs arbitrary: st)
  case Nil
  show ?case by (simp add: tally_def add_stats_def)
next
  case (Cons c cs)
  then show ?case
    by (simp add: tally_append add_stats_assoc)
qed

lemma count_items_tally: "count_items t st = add_stats st (tally (subtrees t))"
proof (induction t arbitrary: st)
  case (Directory name path cs)
  have "fold count_items cs st' = add_stats st' (tally (concat (map subtrees cs)))" for st'
    by (rule fold_count_items) (rule Directory.IH)
  then show ?case
    by (simp add: tally_def add_stats_def)
next
  case (FileEntry name path sz)
  show ?case by (simp add: tally_def add_stats_def)
next
  case (ErrorNode name path)
  show ?case by (simp add: tally_def add_stats_def)
qed

lemma get_summary_tally: "get_summary t = tally (subtrees t)"
  by (simp add: get_summary_def count_items_tally add_stats_def tally_def)

lemma kinds_partition:
  "length (filter is_Directory ns) + length (filter is_FileEntry ns) +
   length (filter is_ErrorNode ns) = length ns"
proof (induction ns)
  case Nil
  show ?case by simp
next
  case (Cons n ns)
  then show ?case by (cases n) simp_all
qed

lemma sum_list_insort_key:
  "sum_list (map g (insort_key k x xs)) = g x + sum_list (map g xs)" for g :: "'a \<Rightarrow> nat"
  by (induction xs) simp_all

lemma sum_list_sort_key:
  "sum_list (map g (sort_key k xs)) = sum_list (map g xs)" for g :: "'a \<Rightarrow> nat"
  by (induction xs) (simp_all add: sum_list_insort_key)

lemma entry_count_summary:
  "files (get_summary t) + directories (get_summary t) = entry_count t"
proof -
  have "length (filter is_Directory ns) + length (filter is_FileEntry ns) =
        length (filter (\<lambda>c. \<not> is_ErrorNode c) ns)" for ns :: "node list"
  proof (induction ns)
    case Nil
    show ?case by simp
  next
    case (Cons n ns)
    then show ?case by (cases n) simp_all
  qed
  from this [of "subtrees t"] show ?thesis
    by (simp add: get_summary_tally tally_def entry_count_def)
qed

lemma subtrees_self: "t \<in> set (subtrees t)"
  by (cases t) simp_all

lemma count_entries_matches:
  assumes "get_structure n cfg fs root d = Some (Node t)"
    and "\<not> exclude_hidden cfg" and "max_depth cfg = None" and "include_files cfg"
    and "\<forall>c \<in> set (subtrees t). \<not> is_ErrorNode c"
  shows "count_entries n fs root = Some (entry_count t)"
  using assms(1,5)
proof (induction n arbitrary: root d t)
  case 0
  then show ?case by simp
next
  case (Suc n)
  from assms(3) have live: "\<not> depth_exhausted cfg k" for k
    by (simp add: depth_exhausted_def)
  from get_structure_Node(2) [OF Suc.prems(1)] obtain cs
    where t: "t = Directory (os_path_basename fs root) root cs" by blast
  with Suc.prems(2) have ok_cs: "\<forall>c \<in> set cs. \<forall>s \<in> set (subtrees c). \<not> is_ErrorNode s"
    by auto
  have top: "\<forall>c \<in> set (node_children t). \<not> is_ErrorNode c"
  proof
    fix c assume "c \<in> set (node_children t)"
    with t subtrees_self [of c] have "c \<in> set (subtrees t)" by auto
    with Suc.prems(2) show "\<not> is_ErrorNode c" by blast
  qed
  show ?case
  proof (cases "os_listdir fs root")
    case (Inl e)
    with Suc.prems(1) live t have "cs = [error_node e]"
      by (simp add: get_structure_listdir_raises)
    with top t show ?thesis by simp
  next
    case (Inr items)
    define recurse where "recurse = (\<lambda>p. get_structure n cfg fs p (d + 1))"
    define sorted_items where "sorted_items = sort_items fs root items"
    define contribution where "contribution =
      (\<lambda>x. case item_outcome recurse cfg fs root x of Some (Append c) \<Rightarrow> [c] | _ \<Rightarrow> [])"
    define cnt where "cnt = (\<lambda>x. if os_path_isdir fs (os_path_join fs root x)
                                   then count_entries n fs (os_path_join fs root x) else Some 1)"
    from Suc.prems(1) live Inr t
    have cs: "loop_items recurse cfg fs root sorted_items [] = Some cs"
      by (auto simp: get_structure_listdir_returns recurse_def sorted_items_def)
    from top t have "\<forall>c \<in> set cs. \<not> is_ErrorNode c" by simp
    from loop_items_no_raise [OF cs this]
    have eq: "cs = concat (map contribution sorted_items)"
      and visited: "\<forall>x \<in> set sorted_items. item_outcome recurse cfg fs root x = Some Skip \<or>
                      (\<exists>c. item_outcome recurse cfg fs root x = Some (Append c))"
      by (simp_all add: contribution_def)
    have one: "\<exists>c. contribution x = [c] \<and> cnt x = Some (entry_count c)"
      if x: "x \<in> set sorted_items" for x
    proof -
      from assms(2,4) live have "emitted cfg fs root d x"
        by (simp add: emitted_def Let_def)
      moreover from visited x obtain out
        where out: "item_outcome recurse cfg fs root x = Some out" and "\<And>e. out \<noteq> Raise e"
        by auto
      ultimately obtain c where c: "out = Append c"
        using item_outcome_emitted [of n cfg fs d root x out] by (auto simp: recurse_def)
      with out have contrib: "contribution x = [c]"
        by (simp add: contribution_def)
      then have "c \<in> set (contribution x)" by simp
      with x eq have mem: "c \<in> set cs" by auto
      show ?thesis
      proof (cases "os_path_isdir fs (os_path_join fs root x)")
        case True
        from item_outcome_Append(2) [OF out [unfolded c] True]
        have "get_structure n cfg fs (os_path_join fs root x) (d + 1) = Some (Node c)"
          by (simp add: recurse_def)
        then have "count_entries n fs (os_path_join fs root x) = Some (entry_count c)"
          using ok_cs mem by (intro Suc.IH) auto
        with True contrib show ?thesis by (simp add: cnt_def)
      next
        case False
        from item_outcome_Append(3) [OF out [unfolded c] False] obtain sz
          where "c = FileEntry x (os_path_join fs root x) sz" by blast
        with False contrib show ?thesis by (simp add: cnt_def entry_count_def)
      qed
    qed
    have total: "None \<notin> set (map cnt xs) \<and>
                 sum_list (map (\<lambda>x. the (cnt x)) xs) =
                   length (filter (\<lambda>c. \<not> is_ErrorNode c)
                     (concat (map subtrees (concat (map contribution xs)))))"
      if "set xs \<subseteq> set sorted_items" for xs
      using that
    proof (induction xs)
      case Nil
      show ?case by simp
    next
      case (Cons x xs)
      then obtain c where "contribution x = [c]" "cnt x = Some (entry_count c)"
        using one [of x] by auto
      with Cons show ?case by (simp add: entry_count_def)
    qed
    from total [of sorted_items]
    have none: "None \<notin> set (map cnt sorted_items)"
      and sum: "sum_list (map (\<lambda>x. the (cnt x)) sorted_items) =
                  length (filter (\<lambda>c. \<not> is_ErrorNode c) (concat (map subtrees cs)))"
      using eq by simp_all
    from none have none': "None \<notin> set (map cnt items)"
      by (simp add: sorted_items_def sort_items_def)
    from sum have sum': "sum_list (map (\<lambda>x. the (cnt x)) items) =
                  length (filter (\<lambda>c. \<not> is_ErrorNode c) (concat (map subtrees cs)))"
      by (simp add: sorted_items_def sort_items_def sum_list_sort_key)
    have "count_entries (Suc n) fs root =
            (if None \<in> set (map cnt items) then None
             else Some (1 + sum_list (map the (map cnt items))))"
      using Inr by (simp add: cnt_def Let_def)
    with none' sum' t show ?thesis
      by (simp add: entry_count_def comp_def)
  qed
qed

text \<open>
  C7. \<^verbatim>\<open>get_summary\<close> gives, for each kind, the number of nodes of that kind in the
  tree, and the three numbers add up to the number of nodes. For a tree returned without
  hidden filter, without depth limit and with files, in which no error dictionary
  occurs, the files and directories counted are together as many as the entries
  reachable below the root, the root counted as one.
\<close>

theorem summary_counts_nodes:
  "get_summary t = \<lparr>directories = length (filter is_Directory (subtrees t)),
                    files = length (filter is_FileEntry (subtrees t)),
                    errors = length (filter is_ErrorNode (subtrees t))\<rparr> \<and>
   directories (get_summary t) + files (get_summary t) + errors (get_summary t) =
     length (subtrees t) \<and>
   (get_structure n cfg fs root d = Some (Node t) \<longrightarrow>
    \<not> exclude_hidden cfg \<longrightarrow> max_depth cfg = None \<longrightarrow> include_files cfg \<longrightarrow>
    errors (get_summary t) = 0 \<longrightarrow>
      count_entries n fs root = Some (files (get_summary t) + directories (get_summary t)))"
proof (intro conjI impI)
  show "get_summary t = \<lparr>directories = length (filter is_Directory (subtrees t)),
                    files = length (filter is_FileEntry (subtrees t)),
                    errors = length (filter is_ErrorNode (subtrees t))\<rparr>"
    by (simp add: get_summary_tally tally_def)
  show "directories (get_summary t) + files (get_summary t) + errors (get_summary t) =
          length (subtrees t)"
    by (simp add: get_summary_tally tally_def kinds_partition)
next
  assume run: "get_structure n cfg fs root d = Some (Node t)"
    and cfg: "\<not> exclude_hidden cfg" "max_depth cfg = None" "include_files cfg"
    and "errors (get_summary t) = 0"
  then have "filter is_ErrorNode (subtrees t) = []"
    by (simp add: get_summary_tally tally_def)
  then have "\<forall>c \<in> set (subtrees t). \<not> is_ErrorNode c"
    by (simp add: filter_empty_conv)
  with run cfg have "count_entries n fs root = Some (entry_count t)"
    by (rule count_entries_matches)
  then show "count_entries n fs root =
               Some (files (get_summary t) + directories (get_summary t))"
    by (simp add: entry_count_summary)
qed

text \<open>The theorem at the root of \<open>fs_hidden\<close>: two directories, three files, five entries.\<close>

theorem summary_counts_nodes_witness:
  "get_structure 3 (default_config\<lparr>exclude_hidden := False\<rparr>) fs_hidden ''/.cfg'' 0 =
     Some (Node (Directory ''.cfg'' ''/.cfg''
       [Directory ''.git'' ''/.cfg/.git'' [FileEntry ''HEAD'' ''/.cfg/.git/HEAD'' 4],
        FileEntry ''.env'' ''/.cfg/.env'' 3, FileEntry ''main.py'' ''/.cfg/main.py'' 5])) \<and>
   \<not> exclude_hidden (default_config\<lparr>exclude_hidden := False\<rparr>) \<and>
   max_depth (default_config\<lparr>exclude_hidden := False\<rparr>) = None \<and>
   include_files (default_config\<lparr>exclude_hidden := False\<rparr>) \<and>
   get_summary (Directory ''.cfg'' ''/.cfg''
       [Directory ''.git'' ''/.cfg/.git'' [FileEntry ''HEAD'' ''/.cfg/.git/HEAD'' 4],
        FileEntry ''.env'' ''/.cfg/.env'' 3, FileEntry ''main.py'' ''/.cfg/main.py'' 5]) =
     \<lparr>directories = 2, files = 3, errors = 0\<rparr> \<and>
   count_entries 3 fs_hidden ''/.cfg'' = Some 5"
proof -
  let ?cfg = "default_config\<lparr>exclude_hidden := False\<rparr>"
  let ?t = "Directory ''.cfg'' ''/.cfg''
       [Directory ''.git'' ''/.cfg/.git'' [FileEntry ''HEAD'' ''/.cfg/.git/HEAD'' 4],
        FileEntry ''.env'' ''/.cfg/.env'' 3, FileEntry ''main.py'' ''/.cfg/main.py'' 5]"
  have run: "get_structure 3 ?cfg fs_hidden ''/.cfg'' 0 = Some (Node ?t)"
    by code_simp
  have cfg: "\<not> exclude_hidden ?cfg" "max_depth ?cfg = None" "include_files ?cfg"
    by (simp_all add: default_config_def)
  have s: "get_summary ?t = \<lparr>directories = 2, files = 3, errors = 0\<rparr>"
    by (simp add: get_summary_def)
  from summary_counts_nodes [of ?t 3 ?cfg fs_hidden "''/.cfg''" 0] run cfg s
  have "count_entries 3 fs_hidden ''/.cfg'' = Some 5"
    by simp
  with run cfg s show ?thesis by blast
qed

section \<open>The rendering\<close>

text \<open>The loop over the enumerated children marks exactly the final child as last.\<close>

lemma enumerate_children:
  assumes "\<And>c b. c \<in> set cs \<Longrightarrow> f c b = render c px b sp"
  shows "concat (map (\<lambda>(i, child). f child (int i = int (k + length cs) - 1)) (enumerate k cs)) =
           render_children cs px sp"
  using assms
proof (induction cs arbitrary: k rule: induct_list012)
  case 1
  show ?case by simp
next
  case (2 c)
  then show ?case by simp
next
  case (3 c c' rest)
  have "concat (map (\<lambda>(i, child). f child (int i = int (Suc k + length (c' # rest)) - 1))
                  (enumerate (Suc k) (c' # rest))) = render_children (c' # rest) px sp"
    by (rule "3.IH"(2)) (simp add: "3.prems")
  moreover have "f c False = render c px False sp"
    by (simp add: "3.prems")
  ultimately show ?case by simp
qed

lemma print_structure_render:
  "print_structure t prefix is_last show_path = render t prefix is_last show_path"
proof (induction t arbitrary: prefix is_last)
  case (Directory name path cs)
  define new_prefix where "new_prefix = prefix @ (if is_last then ''    '' else bar_prefix)"
  have "concat (map (\<lambda>(i, child).
                       print_structure child new_prefix (int i = int (0 + length cs) - 1) show_path)
                  (enumerate 0 cs)) = render_children cs new_prefix show_path"
    by (rule enumerate_children) (rule Directory.IH)
  then show ?case
    by (simp add: Let_def new_prefix_def)
next
  case (FileEntry name path sz)
  show ?case by simp
next
  case (ErrorNode name path)
  show ?case by simp
qed

lemma render_lines:
  "list_all2 (\<lambda>line structure. \<exists>indent. line = indent @ label show_path structure)
     (render t prefix is_last show_path) (subtrees t)"
  "list_all2 (\<lambda>line structure. \<exists>indent. line = indent @ label show_path structure)
     (render_children cs prefix show_path) (concat (map subtrees cs))"
proof (induction t prefix is_last show_path and cs prefix show_path
    rule: render_render_children.induct)
  case (1 message path prefix is_last show_full_path)
  show ?case by (simp add: label_def)
next
  case (2 name path sz prefix is_last show_full_path)
  show ?case by (simp add: label_def)
next
  case (3 name path cs prefix is_last show_full_path)
  have "\<exists>indent. prefix @ (if is_last then connector_last else connector_mid) @
          (if show_full_path then name @ '' ('' @ path @ '')'' else name) =
          indent @ label show_full_path (Directory name path cs)"
    by (rule exI [of _ "prefix @ (if is_last then connector_last else connector_mid)"])
       (simp add: label_def)
  with 3 show ?case by simp
next
  case (4 prefix show_full_path)
  show ?case by simp
next
  case (5 child prefix show_full_path)
  then show ?case by simp
next
  case (6 child sibling rest prefix show_full_path)
  then show ?case
    by (simp add: list_all2_appendI)
qed

text \<open>
  C8. For every node, prefix and flags, \<^verbatim>\<open>print_structure\<close> prints what the rules of the
  specification give: an error node as the one line of prefix, last-child connector and
  message; any other node as prefix, the connector of its position and its label,
  followed by its children under the prefix extended by four blanks or by the bar, the
  final child alone being last. There is one line for each node, in pre-order, and it
  ends in the label of that node.
\<close>

theorem print_structure_follows_rules:
  "print_structure t prefix is_last show_path = render t prefix is_last show_path \<and>
   list_all2 (\<lambda>line structure. \<exists>indent. line = indent @ label show_path structure)
     (print_structure t prefix is_last show_path) (subtrees t)"
  by (simp add: print_structure_render render_lines(1))

text \<open>A tree of four nodes, printed.\<close>

lemma print_structure_example:
  "print_structure (Directory ''r'' ''/r''
       [Directory ''A'' ''/r/A'' [FileEntry ''x'' ''/r/A/x'' 1], FileEntry ''a.txt'' ''/r/a.txt'' 1]) [] True False =
   [connector_last @ ''r'',
    ''    '' @ connector_mid @ ''A'',
    ''    '' @ bar_prefix @ connector_last @ ''x'',
    ''    '' @ connector_last @ ''a.txt'']"
  by (simp add: Let_def)

section \<open>Export and reconstruction\<close>

text \<open>
  C9. Reading back the value that \<^verbatim>\<open>export_json\<close> hands to \<^verbatim>\<open>json.dump\<close> for a tree
  gives the tree: kind, name, path, size and the children in their order. This holds
  for every tree, so for every tree that \<^verbatim>\<open>get_structure\<close> returns.
\<close>

theorem export_then_reconstruct:
  "reconstruct (export_json (Node t)) = Some t"
proof -
  have "reconstruct (node_dict t) = Some t"
  proof (induction t)
    case (Directory name path cs)
    then have "map (\<lambda>c. the (reconstruct c)) (map node_dict cs) = cs"
      by (simp add: map_idI)
    moreover from Directory have "None \<notin> set (map reconstruct (map node_dict cs))"
      by auto
    ultimately show ?case by simp
  next
    case (FileEntry name path sz)
    show ?case by simp
  next
    case (ErrorNode name path)
    show ?case by simp
  qed
  then show ?thesis by simp
qed

text \<open>The empty dictionary is not the value of a tree.\<close>

lemma reconstruct_empty: "reconstruct (export_json EmptyDict) = None"
  by simp

text \<open>
  Of the values that \<^verbatim>\<open>get_structure\<close> returns, Python takes exactly \<^verbatim>\<open>{}\<close> for false: the
  case distinction in \<open>loop_items\<close> is the test of line 62.
\<close>

lemma truthy_export_json: "truthy (export_json r) \<longleftrightarrow> r \<noteq> EmptyDict"
proof (cases r)
  case EmptyDict
  then show ?thesis by simp
next
  case (Node t)
  then show ?thesis by (cases t) simp_all
qed

end
